theory Spec2Isabelle
  imports Main "HOL-Library.Sublist"
begin

section \<open>Data model\<close>

text \<open>
  The TypeScript interface of a note:
  \<^verbatim>\<open>interface Note { title: string; content: string; subNotes?: Note[]; isCollapsed?: boolean }\<close>
  The two optional fields are \<open>option\<close> values: \<open>None\<close> is the absent (undefined) field.
  A forest is the array \<open>notes: Note[]\<close>, a path is \<open>number[]\<close>; path elements are
  integers, so that the test \<open>idx < 0\<close> of the source is a branch of the model.
\<close>

datatype Note = Note (title: string) (content: string)
  (subNotes: "Note list option") (isCollapsed: "bool option")

type_synonym path = "int list"

text \<open>
  What a handler does to the \<open>notes\<close> state. The handlers return nothing; their visible
  outcome is one of: a plain \<open>return\<close> (\<open>NoEffect\<close>), the alert on the nesting depth
  (\<open>Alerted\<close>), a TypeError raised by reading a field of \<open>undefined\<close> (\<open>Threw\<close>, the state
  setter is not reached), or a call \<open>setNotes(newNotes)\<close>. \<open>SetNotesMalformed\<close> is the
  call of the setter with an array that is no \<open>Note[]\<close> any more: the write went beyond the
  end of the array and left holes, or had a negative index and became a property.
\<close>

datatype effect = NoEffect | Alerted | Threw | SetNotes "Note list" | SetNotesMalformed

section \<open>Resolving and replacing by path\<close>

text \<open>
  \<^verbatim>\<open>for (let i = 0; i < path.length; i++) { const idx = path[i];
    if (idx < 0 || idx >= level.length) return null;
    current = level[idx];
    if (i === path.length - 1) return current;
    if (!current.subNotes) return null;
    level = current.subNotes; }
  return null;\<close>
\<close>

fun getNoteByPath_loop :: "Note list \<Rightarrow> path \<Rightarrow> Note option" where
  "getNoteByPath_loop level [] = None"
| "getNoteByPath_loop level (idx # rest) =
     (if idx < 0 \<or> idx \<ge> int (length level) then None
      else let current = level ! nat idx in
        if rest = [] then Some current
        else (case subNotes current of
                None \<Rightarrow> None
              | Some subs \<Rightarrow> getNoteByPath_loop subs rest))"

definition getNoteByPath :: "Note list \<Rightarrow> path \<Rightarrow> Note option" where
  "getNoteByPath ns p = (if p = [] then None else getNoteByPath_loop ns p)"

text \<open>
  The assignment \<open>level[idx] = updated\<close> of JavaScript: inside the array it replaces the
  element, at \<open>idx = level.length\<close> it extends the array by one element, and anywhere else
  the result is not an array of notes (\<open>None\<close>).
\<close>

definition array_assign :: "Note list \<Rightarrow> int \<Rightarrow> Note \<Rightarrow> Note list option" where
  "array_assign level idx updated =
     (if 0 \<le> idx \<and> idx < int (length level) then Some (level[nat idx := updated])
      else if idx = int (length level) then Some (level @ [updated])
      else None)"

text \<open>
  The loop of \<open>setNoteByPath\<close> on the clone of the forest:
  \<^verbatim>\<open>if (i === path.length - 1) { level[idx] = updated; }
  else { if (!level[idx].subNotes) { level[idx].subNotes = []; }
         level = level[idx].subNotes!; }\<close>
  The in-place writes below \<open>level[idx]\<close> are returned as the new level. Reading
  \<open>level[idx].subNotes\<close> at an index outside the array raises a TypeError.
\<close>

fun setNoteByPath_loop :: "Note list \<Rightarrow> path \<Rightarrow> Note \<Rightarrow> effect" where
  "setNoteByPath_loop level [] updated = SetNotes level"
| "setNoteByPath_loop level [idx] updated =
     (case array_assign level idx updated of
        Some level' \<Rightarrow> SetNotes level'
      | None \<Rightarrow> SetNotesMalformed)"
| "setNoteByPath_loop level (idx # rest) updated =
     (if idx < 0 \<or> idx \<ge> int (length level) then Threw
      else let current = level ! nat idx;
               subs = (case subNotes current of None \<Rightarrow> [] | Some s \<Rightarrow> s)
           in (case setNoteByPath_loop subs rest updated of
                 SetNotes subs' \<Rightarrow>
                   SetNotes (level[nat idx :=
                     Note (title current) (content current) (Some subs') (isCollapsed current)])
               | e \<Rightarrow> e))"

definition setNoteByPath :: "Note list \<Rightarrow> path \<Rightarrow> Note \<Rightarrow> effect" where
  "setNoteByPath ns p updated =
     (if p = [] then NoEffect else setNoteByPath_loop ns p updated)"

text \<open>
  The forest after an effect: only a call of the setter changes it. A handler that
  resolves its path before it replaces never ends in \<open>Threw\<close> or \<open>SetNotesMalformed\<close>;
  for \<open>SetNotesMalformed\<close> the state would leave the type \<open>Note[]\<close>, and the function
  keeps the forest in its place.
\<close>

fun apply_effect :: "effect \<Rightarrow> Note list \<Rightarrow> Note list" where
  "apply_effect (SetNotes ns') ns = ns'"
| "apply_effect e ns = ns"

text \<open>
  For the statements: the children of a note (none when the field is absent), and the
  forest with the note at a path replaced, all else kept.
\<close>

definition children :: "Note \<Rightarrow> Note list" where
  "children n = (case subNotes n of None \<Rightarrow> [] | Some s \<Rightarrow> s)"

fun replace_at :: "Note list \<Rightarrow> path \<Rightarrow> Note \<Rightarrow> Note list" where
  "replace_at ns [] u = ns"
| "replace_at ns [i] u = ns[nat i := u]"
| "replace_at ns (i # r) u =
     ns[nat i := Note (title (ns ! nat i)) (content (ns ! nat i))
                   (Some (replace_at (children (ns ! nat i)) r u)) (isCollapsed (ns ! nat i))]"

section \<open>Creating notes, collapsing, editing\<close>

definition newNote :: Note where
  "newNote = Note ''Untitled Note'' [] (Some []) (Some False)"

definition newSubNote :: Note where
  "newSubNote = Note ''Untitled SubNote'' [] (Some []) (Some False)"

text \<open>
  \<^verbatim>\<open>const parent = getNoteByPath(path); if (!parent) return;
  if (path.length >= 4) { alert("Maximum nesting depth of 4 reached."); return; }
  const updated = { ...parent };
  const newSubNotes = parent.subNotes ? [...parent.subNotes] : [];
  newSubNotes.push(newSubNote); updated.subNotes = newSubNotes;
  setNoteByPath(path, updated);\<close>
\<close>

definition handleAddSubNote :: "Note list \<Rightarrow> path \<Rightarrow> effect" where
  "handleAddSubNote ns p =
     (case getNoteByPath ns p of
        None \<Rightarrow> NoEffect
      | Some parent \<Rightarrow>
          if length p \<ge> 4 then Alerted
          else let newSubNotes = (case subNotes parent of Some s \<Rightarrow> s | None \<Rightarrow> []) @ [newSubNote];
                   updated = Note (title parent) (content parent) (Some newSubNotes) (isCollapsed parent)
               in setNoteByPath ns p updated)"

text \<open>
  \<^verbatim>\<open>const note = getNoteByPath(path); if (!note) return;
  const updated = { ...note, isCollapsed: !note.isCollapsed };\<close>
  The negation of an absent flag is \<open>true\<close>.
\<close>

definition handleToggleCollapse :: "Note list \<Rightarrow> path \<Rightarrow> effect" where
  "handleToggleCollapse ns p =
     (case getNoteByPath ns p of
        None \<Rightarrow> NoEffect
      | Some n \<Rightarrow>
          setNoteByPath ns p
            (Note (title n) (content n) (subNotes n)
               (Some (case isCollapsed n of None \<Rightarrow> True | Some b \<Rightarrow> \<not> b))))"

definition handleNoteTitleChange :: "Note list \<Rightarrow> path \<Rightarrow> string \<Rightarrow> effect" where
  "handleNoteTitleChange ns sel v =
     (case getNoteByPath ns sel of
        None \<Rightarrow> NoEffect
      | Some current \<Rightarrow>
          setNoteByPath ns sel (Note v (content current) (subNotes current) (isCollapsed current)))"

definition handleNoteContentChange :: "Note list \<Rightarrow> path \<Rightarrow> string \<Rightarrow> effect" where
  "handleNoteContentChange ns sel v =
     (case getNoteByPath ns sel of
        None \<Rightarrow> NoEffect
      | Some current \<Rightarrow>
          setNoteByPath ns sel (Note (title current) v (subNotes current) (isCollapsed current)))"

text \<open>
  The state variables of the component. The untabbed revision has \<open>notes\<close> and
  \<open>selectedPath\<close>; the tabbed revision adds \<open>openTabs\<close> and \<open>activeTabIndex\<close>
  (\<open>-1\<close> when no tab is active).
\<close>

record app =
  "notes" :: "Note list"
  selectedPath :: path
  openTabs :: "path list"
  activeTabIndex :: int

text \<open>
  \<^verbatim>\<open>setNotes((prev) => [...prev, newNote]); setSelectedPath([notes.length]);\<close>
\<close>

definition handleNewNote :: "app \<Rightarrow> app" where
  "handleNewNote st =
     st\<lparr>notes := notes st @ [newNote], selectedPath := [int (length (notes st))]\<rparr>"

text \<open>
  The user actions that reach the forest, and one event of the component for each.
  Title and content edits go to the selected path.
\<close>

datatype action =
    NewNote
  | AddSubNote path
  | ToggleCollapse path
  | TitleChange string
  | ContentChange string
  | SelectPath path
  | GoHome

fun step :: "action \<Rightarrow> app \<Rightarrow> app" where
  "step NewNote st = handleNewNote st"
| "step (AddSubNote p) st = st\<lparr>notes := apply_effect (handleAddSubNote (notes st) p) (notes st)\<rparr>"
| "step (ToggleCollapse p) st =
     st\<lparr>notes := apply_effect (handleToggleCollapse (notes st) p) (notes st)\<rparr>"
| "step (TitleChange v) st =
     st\<lparr>notes := apply_effect (handleNoteTitleChange (notes st) (selectedPath st) v) (notes st)\<rparr>"
| "step (ContentChange v) st =
     st\<lparr>notes := apply_effect (handleNoteContentChange (notes st) (selectedPath st) v) (notes st)\<rparr>"
| "step (SelectPath p) st = st\<lparr>selectedPath := p\<rparr>"
| "step GoHome st = st\<lparr>selectedPath := []\<rparr>"

fun run :: "action list \<Rightarrow> app \<Rightarrow> app" where
  "run [] st = st"
| "run (a # as) st = run as (step a st)"


text \<open>
  The path at which a create action, when it succeeds, places its note: the end of the
  root sequence, or the end of the parent's children. \<open>None\<close> when nothing is created.
\<close>

fun created_path :: "action \<Rightarrow> Note list \<Rightarrow> path option" where
  "created_path NewNote ns = Some [int (length ns)]"
| "created_path (AddSubNote p) ns =
     (case getNoteByPath ns p of
        None \<Rightarrow> None
      | Some parent \<Rightarrow>
          if length p \<ge> 4 then None
          else Some (p @ [int (length (case subNotes parent of Some s \<Rightarrow> s | None \<Rightarrow> []))]))"
| "created_path a ns = None"


section \<open>Search\<close>

text \<open>
  \<^verbatim>\<open>function dfs(notesArr, currentPath) { notesArr.forEach((n, idx) => {
    const newPath = [...currentPath, idx]; results.push({ path: newPath, note: n });
    if (n.subNotes && n.subNotes.length > 0) { dfs(n.subNotes, newPath); } }); }\<close>
  The array \<open>results\<close> that the closure pushes to is threaded through the calls.
\<close>

fun dfs :: "Note list \<Rightarrow> nat \<Rightarrow> path \<Rightarrow> (path \<times> Note) list \<Rightarrow> (path \<times> Note) list" where
  "dfs [] idx currentPath results = results"
| "dfs (Note t c sn col # rest) idx currentPath results =
     (let newPath = currentPath @ [int idx];
          results1 = results @ [(newPath, Note t c sn col)];
          results2 = (case sn of
                        None \<Rightarrow> results1
                      | Some subs \<Rightarrow>
                          if length subs > 0 then dfs subs 0 newPath results1 else results1)
      in dfs rest (Suc idx) currentPath results2)"

definition gatherAllNotes :: "Note list \<Rightarrow> (path \<times> Note) list" where
  "gatherAllNotes rootNotes = dfs rootNotes 0 [] []"

text \<open>
  A string is the sequence of its code units. \<open>s.includes(q)\<close> holds when \<open>q\<close> occurs
  in \<open>s\<close> at some position, as a contiguous run of code units.
\<close>

fun str_includes :: "string \<Rightarrow> string \<Rightarrow> bool" where
  "str_includes [] q = (q = [])"
| "str_includes (c # s) q = (prefix q (c # s) \<or> str_includes s q)"

record search_panel =
  searchOpen :: bool
  searchQuery :: string
  searchResults :: "(path \<times> Note) list"
  searchSelectedIndex :: int

text \<open>
  The effect that recomputes the results:
  \<^verbatim>\<open>if (!searchOpen) return;
  if (!searchQuery.trim()) { setSearchResults([]); setSearchSelectedIndex(0); return; }
  const all = gatherAllNotes(notes); const lowerQ = searchQuery.toLowerCase();
  const matched = all.filter(({ note }) => (
    (note.title ?? "").toLowerCase().includes(lowerQ) ||
    (note.content ?? "").toLowerCase().includes(lowerQ)));
  setSearchResults(matched); setSearchSelectedIndex(0);\<close>
  \<open>String.prototype.trim\<close> and \<open>String.prototype.toLowerCase\<close> are built-ins of the
  JavaScript engine, with Unicode tables of white space and of case. They are no code of
  this component: the effect takes them as the parameters \<open>trim\<close> and \<open>toLowerCase\<close>, and
  what is proved of it holds for every such pair of functions.
\<close>

definition search_matches :: "(string \<Rightarrow> string) \<Rightarrow> string \<Rightarrow> path \<times> Note \<Rightarrow> bool" where
  "search_matches toLowerCase lowerQ e =
     (str_includes (toLowerCase (title (snd e))) lowerQ \<or>
      str_includes (toLowerCase (content (snd e))) lowerQ)"

definition search_effect ::
  "(string \<Rightarrow> string) \<Rightarrow> (string \<Rightarrow> string) \<Rightarrow> Note list \<Rightarrow> search_panel \<Rightarrow> search_panel" where
  "search_effect trim toLowerCase ns sp =
     (if \<not> searchOpen sp then sp
      else if trim (searchQuery sp) = [] then sp\<lparr>searchResults := [], searchSelectedIndex := 0\<rparr>
      else let all = gatherAllNotes ns;
               lowerQ = toLowerCase (searchQuery sp);
               matched = filter (search_matches toLowerCase lowerQ) all
           in sp\<lparr>searchResults := matched, searchSelectedIndex := 0\<rparr>)"

text \<open>
  The traversal as the specification words it: depth first, a parent before its children,
  the children from left to right, one entry for every note.
\<close>

fun preorder :: "path \<Rightarrow> nat \<Rightarrow> Note list \<Rightarrow> (path \<times> Note) list" where
  "preorder cur i [] = []"
| "preorder cur i (Note t c sn col # rest) =
     (cur @ [int i], Note t c sn col)
       # (case sn of None \<Rightarrow> [] | Some subs \<Rightarrow> preorder (cur @ [int i]) 0 subs)
       @ preorder cur (Suc i) rest"

text \<open>The number of notes of a forest, internal notes included.\<close>

fun count_notes :: "Note list \<Rightarrow> nat" where
  "count_notes [] = 0"
| "count_notes (Note t c sn col # rest) =
     Suc ((case sn of None \<Rightarrow> 0 | Some subs \<Rightarrow> count_notes subs) + count_notes rest)"

text \<open>A note with every collapsed flag, its own and those below it, erased.\<close>

fun strip_collapsed :: "Note \<Rightarrow> Note" where
  "strip_collapsed (Note t c sn col) = Note t c (map_option (map strip_collapsed) sn) None"

section \<open>Tabs\<close>

text \<open>
  \<^verbatim>\<open>if (a.length !== b.length) return false
  for (let i = 0; i < a.length; i++) { if (a[i] !== b[i]) return false }
  return true\<close>
\<close>

fun pathsEqual_loop :: "path \<Rightarrow> path \<Rightarrow> bool" where
  "pathsEqual_loop [] b = True"
| "pathsEqual_loop (x # a) [] = False"
| "pathsEqual_loop (x # a) (y # b) = (if x \<noteq> y then False else pathsEqual_loop a b)"

definition pathsEqual :: "path \<Rightarrow> path \<Rightarrow> bool" where
  "pathsEqual a b = (if length a \<noteq> length b then False else pathsEqual_loop a b)"

text \<open>\<open>Array.prototype.findIndex\<close>: the first position that satisfies the test, else \<open>-1\<close>.\<close>

fun findIndex_from :: "('a \<Rightarrow> bool) \<Rightarrow> 'a list \<Rightarrow> int \<Rightarrow> int" where
  "findIndex_from P [] i = -1"
| "findIndex_from P (x # xs) i = (if P x then i else findIndex_from P xs (i + 1))"

definition findIndex :: "('a \<Rightarrow> bool) \<Rightarrow> 'a list \<Rightarrow> int" where
  "findIndex P xs = findIndex_from P xs 0"

text \<open>
  \<^verbatim>\<open>const existingIndex = openTabs.findIndex((t) => pathsEqual(t, path))
  if (existingIndex >= 0) { setActiveTabIndex(existingIndex); setSelectedPath(path) }
  else { setOpenTabs((prev) => [...prev, path]); setActiveTabIndex(openTabs.length)
         setSelectedPath(path) }\<close>
\<close>

definition openNoteTab :: "app \<Rightarrow> path \<Rightarrow> app" where
  "openNoteTab st p =
     (let existingIndex = findIndex (\<lambda>t. pathsEqual t p) (openTabs st) in
      if existingIndex \<ge> 0 then st\<lparr>selectedPath := p, activeTabIndex := existingIndex\<rparr>
      else st\<lparr>selectedPath := p, openTabs := openTabs st @ [p],
              activeTabIndex := int (length (openTabs st))\<rparr>)"

text \<open>
  \<open>copy.splice(index, 1)\<close>: a negative start counts from the end, a start beyond the end
  removes nothing.
\<close>

definition splice1 :: "'a list \<Rightarrow> int \<Rightarrow> 'a list" where
  "splice1 xs index =
     (let len = int (length xs);
          start = (if index < 0 then max (len + index) 0 else min index len)
      in take (nat start) xs @ drop (Suc (nat start)) xs)"

text \<open>
  \<^verbatim>\<open>setOpenTabs((prev) => { const copy = [...prev]; copy.splice(index, 1); return copy })
  if (index === activeTabIndex) {
    let newIndex = index - 1
    if (newIndex < 0) { newIndex = 0 }
    if (newIndex >= openTabs.length - 1) {
      if (openTabs.length - 1 <= 0) { setActiveTabIndex(-1); setSelectedPath([]) }
      else { setActiveTabIndex(openTabs.length - 2)
             setSelectedPath(openTabs[openTabs.length - 2]) }
    } else { setActiveTabIndex(newIndex) }
  } else if (index < activeTabIndex) { setActiveTabIndex((prev) => prev - 1) }\<close>
  In the handler \<open>openTabs\<close> is the array before the removal.
\<close>

definition handleTabClose :: "app \<Rightarrow> int \<Rightarrow> app" where
  "handleTabClose st index =
     (let tabs = openTabs st;
          len = int (length tabs);
          st1 = st\<lparr>openTabs := splice1 tabs index\<rparr>
      in if index = activeTabIndex st then
           (let newIndex = (if index - 1 < 0 then 0 else index - 1) in
            if newIndex \<ge> len - 1 then
              (if len - 1 \<le> 0 then st1\<lparr>selectedPath := [], activeTabIndex := -1\<rparr>
               else st1\<lparr>selectedPath := tabs ! nat (len - 2), activeTabIndex := len - 2\<rparr>)
            else st1\<lparr>activeTabIndex := newIndex\<rparr>)
         else if index < activeTabIndex st then st1\<lparr>activeTabIndex := activeTabIndex st - 1\<rparr>
         else st1)"

section \<open>Example data\<close>

definition initial :: app where
  "initial = \<lparr>notes = [], selectedPath = [], openTabs = [], activeTabIndex = -1\<rparr>"

definition ex_tabs :: app where
  "ex_tabs = \<lparr>notes = [], selectedPath = [1], openTabs = [[0], [1], [0, 0]], activeTabIndex = 1\<rparr>"

definition ex_sub :: Note where
  "ex_sub = Note ''Sub'' ''bread'' (Some []) (Some False)"

definition ex_plain :: Note where
  "ex_plain = Note ''Plain'' [] None None"

definition ex_forest :: "Note list" where
  "ex_forest = [Note ''Shopping'' ''milk eggs'' (Some [ex_sub]) (Some False), ex_plain]"

text \<open>
  For the examples only: the two built-ins on strings of ASCII characters, where \<open>trim\<close>
  strips tab, line feed, vertical tab, form feed, carriage return and space, and
  \<open>toLowerCase\<close> maps \<open>A\<close> to \<open>Z\<close> to \<open>a\<close> to \<open>z\<close>. Every string of the examples is
  ASCII.
\<close>

definition ascii_isWhiteSpace :: "char \<Rightarrow> bool" where
  "ascii_isWhiteSpace c = (let n = (of_char c :: nat) in (9 \<le> n \<and> n \<le> 13) \<or> n = 32)"

definition ascii_trim :: "string \<Rightarrow> string" where
  "ascii_trim s = rev (dropWhile ascii_isWhiteSpace (rev (dropWhile ascii_isWhiteSpace s)))"

definition ascii_toLowerChar :: "char \<Rightarrow> char" where
  "ascii_toLowerChar c =
     (let n = (of_char c :: nat) in if 65 \<le> n \<and> n \<le> 90 then char_of (n + 32) else c)"

definition ascii_toLowerCase :: "string \<Rightarrow> string" where
  "ascii_toLowerCase s = map ascii_toLowerChar s"

definition ex_panel :: search_panel where
  "ex_panel = \<lparr>searchOpen = True, searchQuery = ''Bread'', searchResults = [],
                searchSelectedIndex = 3\<rparr>"

definition ex_deep :: "Note list" where
  "ex_deep = [Note ''a'' [] (Some [Note ''b'' [] (Some [Note ''c'' [] (Some [ex_sub]) None]) None])
                (Some True)]"

section \<open>Properties\<close>

subsection \<open>The traversal lists the paths that resolve\<close>

lemma dfs_preorder: "dfs ns i cur acc = acc @ preorder cur i ns"
  by (induction ns i cur acc rule: dfs.induct) (auto simp: Let_def split: option.splits)

lemma loop_Suc: "getNoteByPath_loop (x # xs) (int (Suc j) # r) = getNoteByPath_loop xs (int j # r)"
  by (simp add: nat_add_distrib)

lemma loop_0: "getNoteByPath_loop (x # xs) (0 # k # r) =
    (case subNotes x of None \<Rightarrow> None | Some subs \<Rightarrow> getNoteByPath_loop subs (k # r))"
  by simp

lemma loop_head_nonneg: "getNoteByPath_loop ns (k # r) = Some n \<Longrightarrow> \<exists>j. k = int j \<and> j < length ns"
  by (cases "k < 0") (auto split: if_splits intro: exI[of _ "nat k"])

lemma preorder_mem:
  "(p, n) \<in> set (preorder cur i ns) \<longleftrightarrow>
     (\<exists>j r. p = cur @ (int (i + j) # r) \<and> getNoteByPath_loop ns (int j # r) = Some n)"
proof (induction cur i ns arbitrary: p n rule: preorder.induct)
  case (1 cur i)
  then show ?case by simp
next
  case (2 cur i t c sn col rest)
  let ?N = "Note t c sn col"
  let ?sub = "case sn of None \<Rightarrow> [] | Some subs \<Rightarrow> preorder (cur @ [int i]) 0 subs"
  have sub: "(p, n) \<in> set ?sub \<longleftrightarrow>
      (\<exists>k r. p = cur @ (int i # int k # r) \<and> getNoteByPath_loop (?N # rest) (0 # int k # r) = Some n)"
  proof (cases sn)
    case None
    then show ?thesis by simp
  next
    case (Some subs)
    then show ?thesis using "2.IH"(1)[OF Some, of p n] by simp
  qed
  have rest: "(p, n) \<in> set (preorder cur (Suc i) rest) \<longleftrightarrow>
      (\<exists>j r. p = cur @ (int (i + Suc j) # r) \<and> getNoteByPath_loop (?N # rest) (int (Suc j) # r) = Some n)"
    using "2.IH"(2)[of p n] by (simp only: loop_Suc) simp
  have split: "(\<exists>j r. p = cur @ (int (i + j) # r) \<and> getNoteByPath_loop (?N # rest) (int j # r) = Some n)
     \<longleftrightarrow> (p = cur @ [int i] \<and> n = ?N)
       \<or> (\<exists>k r. p = cur @ (int i # int k # r) \<and> getNoteByPath_loop (?N # rest) (0 # int k # r) = Some n)
       \<or> (\<exists>j r. p = cur @ (int (i + Suc j) # r) \<and> getNoteByPath_loop (?N # rest) (int (Suc j) # r) = Some n)"
    (is "?L \<longleftrightarrow> ?A \<or> ?B \<or> ?C")
  proof
    assume ?L
    then obtain j r where pj: "p = cur @ (int (i + j) # r)"
      and res: "getNoteByPath_loop (?N # rest) (int j # r) = Some n" by blast
    show "?A \<or> ?B \<or> ?C"
    proof (cases j)
      case 0
      show ?thesis
      proof (cases r)
        case Nil
        with 0 pj res show ?thesis by simp
      next
        case (Cons k r')
        from 0 res Cons have "getNoteByPath_loop (?N # rest) (0 # k # r') = Some n"
          by (simp del: getNoteByPath_loop.simps)
        then have "\<exists>subs. sn = Some subs \<and> getNoteByPath_loop subs (k # r') = Some n"
          unfolding loop_0 by (cases sn) (simp_all del: getNoteByPath_loop.simps)
        then obtain subs where "getNoteByPath_loop subs (k # r') = Some n" by blast
        from loop_head_nonneg[OF this] obtain k' where "k = int k'" by blast
        with 0 Cons pj res have ?B by auto
        then show ?thesis by blast
      qed
    next
      case (Suc j')
      with pj res have ?C by blast
      then show ?thesis by blast
    qed
  next
    assume "?A \<or> ?B \<or> ?C"
    then show ?L
    proof (elim disjE)
      assume ?A
      then have "p = cur @ (int (i + 0) # []) \<and> getNoteByPath_loop (?N # rest) (int 0 # []) = Some n"
        by simp
      then show ?L by blast
    next
      assume ?B
      then obtain k r where "p = cur @ (int (i + 0) # int k # r)
          \<and> getNoteByPath_loop (?N # rest) (int 0 # int k # r) = Some n" by auto
      then show ?L by blast
    next
      assume ?C
      then show ?L by blast
    qed
  qed
  have "(p, n) \<in> set (preorder cur i (?N # rest)) \<longleftrightarrow>
      (p = cur @ [int i] \<and> n = ?N) \<or> (p, n) \<in> set ?sub \<or> (p, n) \<in> set (preorder cur (Suc i) rest)"
    by auto
  then show ?case unfolding sub rest split .
qed

lemma gather_mem: "(p, n) \<in> set (gatherAllNotes ns) \<longleftrightarrow> getNoteByPath ns p = Some n"
proof -
  have "(p, n) \<in> set (gatherAllNotes ns) \<longleftrightarrow>
      (\<exists>j r. p = int j # r \<and> getNoteByPath_loop ns (int j # r) = Some n)"
    using preorder_mem[of p n "[]" 0 ns] by (simp add: gatherAllNotes_def dfs_preorder)
  also have "\<dots> \<longleftrightarrow> getNoteByPath ns p = Some n"
  proof (cases p)
    case Nil
    then show ?thesis by (simp add: getNoteByPath_def)
  next
    case (Cons k r)
    show ?thesis
    proof
      assume "\<exists>j r. p = int j # r \<and> getNoteByPath_loop ns (int j # r) = Some n"
      then show "getNoteByPath ns p = Some n" by (auto simp: getNoteByPath_def)
    next
      assume "getNoteByPath ns p = Some n"
      with Cons have r: "getNoteByPath_loop ns (k # r) = Some n" by (simp add: getNoteByPath_def)
      from loop_head_nonneg[OF r] obtain j where "k = int j" by blast
      with Cons r show "\<exists>j r. p = int j # r \<and> getNoteByPath_loop ns (int j # r) = Some n" by blast
    qed
  qed
  finally show ?thesis .
qed

lemma preorder_fst:
  "p \<in> fst ` set (preorder cur i ns) \<Longrightarrow> \<exists>j r. p = cur @ (int (i + j) # r)"
  using preorder_mem by (metis (no_types, lifting) imageE prod.collapse)

lemma preorder_distinct: "distinct (map fst (preorder cur i ns))"
proof (induction cur i ns rule: preorder.induct)
  case (1 cur i)
  then show ?case by simp
next
  case (2 cur i t c sn col rest)
  let ?sub = "case sn of None \<Rightarrow> [] | Some subs \<Rightarrow> preorder (cur @ [int i]) 0 subs"
  have d1: "distinct (map fst ?sub)" using "2.IH"(1) by (cases sn) auto
  have d2: "distinct (map fst (preorder cur (Suc i) rest))" using "2.IH"(2) .
  have s1: "\<exists>k r. p = cur @ (int i # int k # r)" if "p \<in> fst ` set ?sub" for p
  proof (cases sn)
    case None
    with that show ?thesis by simp
  next
    case (Some subs)
    with that preorder_fst[of p "cur @ [int i]" 0 subs] show ?thesis by auto
  qed
  have s2: "\<exists>j r. p = cur @ (int (Suc i + j) # r)" if "p \<in> fst ` set (preorder cur (Suc i) rest)" for p
    using preorder_fst[OF that] .
  have a: "cur @ [int i] \<notin> fst ` set ?sub" using s1 by fastforce
  have b: "cur @ [int i] \<notin> fst ` set (preorder cur (Suc i) rest)" using s2 by fastforce
  have c: "fst ` set ?sub \<inter> fst ` set (preorder cur (Suc i) rest) = {}"
  proof (rule ccontr)
    assume "\<not> ?thesis"
    then obtain p where p1: "p \<in> fst ` set ?sub" and p2: "p \<in> fst ` set (preorder cur (Suc i) rest)"
      by blast
    from s1[OF p1] s2[OF p2] show False by auto
  qed
  show ?case using a b c d1 d2 by (simp del: preorder.simps add: preorder.simps(2) image_Un)
qed

lemma preorder_length: "length (preorder cur i ns) = count_notes ns"
  by (induction cur i ns rule: preorder.induct) (auto split: option.splits)

subsection \<open>Resolving after a replacement\<close>

lemma set_loop_resolved:
  "getNoteByPath_loop ns p = Some old \<Longrightarrow> setNoteByPath_loop ns p u = SetNotes (replace_at ns p u)"
proof (induction ns p u arbitrary: old rule: setNoteByPath_loop.induct)
  case (1 level updated)
  then show ?case by simp
next
  case (2 level idx updated)
  then show ?case by (simp add: array_assign_def split: if_splits)
next
  case (3 level idx v va updated)
  from "3.prems" have rng: "\<not> (idx < 0 \<or> int (length level) \<le> idx)"
    by (auto split: if_splits)
  from "3.prems" rng obtain subs where subs: "subNotes (level ! nat idx) = Some subs"
    and res: "getNoteByPath_loop subs (v # va) = Some old"
    by (auto split: option.splits simp: Let_def)
  have "setNoteByPath_loop subs (v # va) updated = SetNotes (replace_at subs (v # va) updated)"
    using "3.IH"[OF rng refl, of subs old] subs res by simp
  then show ?case using rng subs by (simp add: Let_def children_def)
qed

lemma length_replace_at [simp]: "length (replace_at ns p u) = length ns"
  by (induction ns p u rule: replace_at.induct) auto

lemma loop_append:
  "p \<noteq> [] \<Longrightarrow> r \<noteq> [] \<Longrightarrow> getNoteByPath_loop ns (p @ r) =
     (case getNoteByPath_loop ns p of None \<Rightarrow> None
      | Some n \<Rightarrow> (case subNotes n of None \<Rightarrow> None | Some s \<Rightarrow> getNoteByPath_loop s r))"
proof (induction ns p rule: getNoteByPath_loop.induct)
  case (1 level)
  then show ?case by simp
next
  case (2 level idx rest)
  show ?case
  proof (cases "rest = []")
    case True
    then show ?thesis using "2.prems" by (auto simp: Let_def)
  next
    case False
    then show ?thesis using 2 by (auto simp: Let_def split: option.splits)
  qed
qed

lemma loop_resolved_cons:
  "getNoteByPath_loop ns (i # v # va) = Some old \<Longrightarrow>
     0 \<le> i \<and> nat i < length ns \<and>
     (\<exists>subs. subNotes (ns ! nat i) = Some subs \<and> getNoteByPath_loop subs (v # va) = Some old)"
  by (auto split: if_splits option.splits simp: Let_def)

lemma loop_resolved_single:
  "getNoteByPath_loop ns [i] = Some old \<Longrightarrow> 0 \<le> i \<and> nat i < length ns \<and> ns ! nat i = old"
  by (auto split: if_splits)

lemma loop_step:
  "0 \<le> i \<Longrightarrow> nat i < length ns \<Longrightarrow> r \<noteq> [] \<Longrightarrow>
   getNoteByPath_loop ns (i # r) =
     (case subNotes (ns ! nat i) of None \<Rightarrow> None | Some s \<Rightarrow> getNoteByPath_loop s r)"
proof -
  assume a: "0 \<le> i" "nat i < length ns" "r \<noteq> []"
  then have "\<not> (i < 0 \<or> int (length ns) \<le> i)" by linarith
  with a(3) show ?thesis by (simp add: Let_def)
qed

lemma loop_update_head:
  "0 \<le> i \<Longrightarrow> nat i < length ns \<Longrightarrow>
   getNoteByPath_loop (ns[nat i := x]) (j # r) =
     (if j = i then (if r = [] then Some x
                     else (case subNotes x of None \<Rightarrow> None | Some s \<Rightarrow> getNoteByPath_loop s r))
      else getNoteByPath_loop ns (j # r))"
  by (auto simp: Let_def nat_eq_iff)

lemma loop_replace_same:
  "getNoteByPath_loop ns p = Some old \<Longrightarrow> getNoteByPath_loop (replace_at ns p u) p = Some u"
proof (induction ns p u arbitrary: old rule: replace_at.induct)
  case (1 ns u)
  then show ?case by simp
next
  case (2 ns i u)
  from loop_resolved_single[OF "2.prems"] show ?case
    by (simp add: loop_update_head del: getNoteByPath_loop.simps)
next
  case (3 ns i v va u)
  from loop_resolved_cons[OF "3.prems"] obtain subs where
    i: "0 \<le> i" "nat i < length ns" and subs: "subNotes (ns ! nat i) = Some subs"
    and res: "getNoteByPath_loop subs (v # va) = Some old" by blast
  have "children (ns ! nat i) = subs" using subs by (simp add: children_def)
  with "3.IH"[of old] res have "getNoteByPath_loop (replace_at subs (v # va) u) (v # va) = Some u"
    by simp
  then show ?case using i \<open>children (ns ! nat i) = subs\<close>
    by (simp add: loop_update_head del: getNoteByPath_loop.simps)
qed

lemma loop_replace_other:
  "getNoteByPath_loop ns p = Some old \<Longrightarrow> \<not> prefix p q \<Longrightarrow> \<not> prefix q p \<Longrightarrow>
   getNoteByPath_loop (replace_at ns p u) q = getNoteByPath_loop ns q"
proof (induction ns p u arbitrary: old q rule: replace_at.induct)
  case (1 ns u)
  then show ?case by simp
next
  case (2 ns i u)
  from "2.prems" obtain j r where q: "q = j # r" by (cases q) auto
  with "2.prems" have "j \<noteq> i" by auto
  with loop_resolved_single[OF "2.prems"(1)] q show ?case
    by (simp add: loop_update_head del: getNoteByPath_loop.simps)
next
  case (3 ns i v va u)
  from loop_resolved_cons[OF "3.prems"(1)] obtain subs where
    i: "0 \<le> i" "nat i < length ns" and subs: "subNotes (ns ! nat i) = Some subs"
    and res: "getNoteByPath_loop subs (v # va) = Some old" by blast
  have ch: "children (ns ! nat i) = subs" using subs by (simp add: children_def)
  from "3.prems" obtain j r where q: "q = j # r" by (cases q) auto
  show ?case
  proof (cases "j = i")
    case False
    with i q show ?thesis by (simp add: loop_update_head del: getNoteByPath_loop.simps)
  next
    case True
    with "3.prems" q have r: "r \<noteq> []" "\<not> prefix (v # va) r" "\<not> prefix r (v # va)" by auto
    have "getNoteByPath_loop (replace_at subs (v # va) u) r = getNoteByPath_loop subs r"
      using "3.IH"[of old r] res r ch by simp
    moreover have "getNoteByPath_loop ns (i # r) = getNoteByPath_loop subs r"
      using i subs r(1) by (simp add: loop_step del: getNoteByPath_loop.simps)
    ultimately show ?thesis using True q i ch r(1)
      by (simp add: loop_update_head del: getNoteByPath_loop.simps)
  qed
qed

lemma loop_replace_ancestor:
  "getNoteByPath_loop ns p = Some old \<Longrightarrow> strict_prefix q p \<Longrightarrow> q \<noteq> [] \<Longrightarrow>
   \<exists>n. getNoteByPath_loop ns q = Some n \<and>
       getNoteByPath_loop (replace_at ns p u) q =
         Some (Note (title n) (content n)
                 (Some (replace_at (children n) (drop (length q) p) u)) (isCollapsed n))"
proof (induction ns p u arbitrary: old q rule: replace_at.induct)
  case (1 ns u)
  then show ?case by simp
next
  case (2 ns i u)
  then show ?case by (cases q) (auto simp: strict_prefix_def)
next
  case (3 ns i v va u)
  from loop_resolved_cons[OF "3.prems"(1)] obtain subs where
    i: "0 \<le> i" "nat i < length ns" and subs: "subNotes (ns ! nat i) = Some subs"
    and res: "getNoteByPath_loop subs (v # va) = Some old" by blast
  have ch: "children (ns ! nat i) = subs" using subs by (simp add: children_def)
  from "3.prems" obtain r where q: "q = i # r" and r: "strict_prefix r (v # va)"
    by (cases q) (auto simp: strict_prefix_def)
  show ?case
  proof (cases "r = []")
    case True
    with q i show ?thesis by (simp add: loop_update_head del: getNoteByPath_loop.simps) simp
  next
    case False
    from "3.IH"[OF _ r False, of old] res ch obtain n where
      n: "getNoteByPath_loop subs r = Some n"
      "getNoteByPath_loop (replace_at subs (v # va) u) r =
         Some (Note (title n) (content n)
                 (Some (replace_at (children n) (drop (length r) (v # va)) u)) (isCollapsed n))"
      by auto
    have "getNoteByPath_loop ns (i # r) = getNoteByPath_loop subs r"
      using i subs False by (simp add: loop_step del: getNoteByPath_loop.simps)
    with n show ?thesis using q i ch False
      by (simp add: loop_update_head del: getNoteByPath_loop.simps)
  qed
qed

subsection \<open>Replacing below a parent\<close>

lemma set_loop_step:
  "r \<noteq> [] \<Longrightarrow> setNoteByPath_loop level (idx # r) u =
     (if idx < 0 \<or> idx \<ge> int (length level) then Threw
      else (case setNoteByPath_loop (children (level ! nat idx)) r u of
                 SetNotes subs' \<Rightarrow>
                   SetNotes (level[nat idx :=
                     Note (title (level ! nat idx)) (content (level ! nat idx)) (Some subs')
                       (isCollapsed (level ! nat idx))])
               | e \<Rightarrow> e))"
  by (cases r) (simp_all add: Let_def children_def)

lemma set_loop_nil_threw: "r \<noteq> [] \<Longrightarrow> setNoteByPath_loop [] (v # r) u = Threw"
  by (cases "v < 0") (simp_all add: set_loop_step del: setNoteByPath_loop.simps)

lemma set_loop_unresolved_parent:
  "q \<noteq> [] \<Longrightarrow> getNoteByPath_loop ns q = None \<Longrightarrow> setNoteByPath_loop ns (q @ [k]) u = Threw"
proof (induction ns q arbitrary: rule: getNoteByPath_loop.induct)
  case (1 level)
  then show ?case by simp
next
  case (2 level idx rest)
  show ?case
  proof (cases "idx < 0 \<or> int (length level) \<le> idx")
    case True
    then show ?thesis by (cases rest) auto
  next
    case rng: False
    show ?thesis
    proof (cases rest)
      case Nil
      with rng "2.prems" show ?thesis by simp
    next
      case (Cons v va)
      have inner: "setNoteByPath_loop (children (level ! nat idx)) (rest @ [k]) u = Threw"
      proof (cases "subNotes (level ! nat idx)")
        case None
        with Cons show ?thesis by (simp add: set_loop_nil_threw children_def del: setNoteByPath_loop.simps)
      next
        case (Some subs)
        with rng Cons "2.prems" have "getNoteByPath_loop subs rest = None" by (simp add: Let_def)
        with "2.IH"[OF rng refl _ Some] Cons Some show ?thesis by (simp add: children_def)
      qed
      have "setNoteByPath_loop level (idx # (rest @ [k])) u =
         (if idx < 0 \<or> idx \<ge> int (length level) then Threw
          else (case setNoteByPath_loop (children (level ! nat idx)) (rest @ [k]) u of
                 SetNotes subs' \<Rightarrow>
                   SetNotes (level[nat idx :=
                     Note (title (level ! nat idx)) (content (level ! nat idx)) (Some subs')
                       (isCollapsed (level ! nat idx))])
               | e \<Rightarrow> e))"
        by (rule set_loop_step) simp
      also have "\<dots> = Threw" using inner by simp
      finally show ?thesis by simp
    qed
  qed
qed

lemma set_loop_resolved_parent:
  "getNoteByPath_loop ns q = Some parent \<Longrightarrow>
   setNoteByPath_loop ns (q @ [k]) u =
     (case array_assign (children parent) k u of
        None \<Rightarrow> SetNotesMalformed
      | Some l \<Rightarrow> SetNotes (replace_at ns q
                    (Note (title parent) (content parent) (Some l) (isCollapsed parent))))"
proof (induction ns q arbitrary: rule: getNoteByPath_loop.induct)
  case (1 level)
  then show ?case by simp
next
  case (2 level idx rest)
  from "2.prems" have rng: "\<not> (idx < 0 \<or> int (length level) \<le> idx)" by (auto split: if_splits)
  show ?case
  proof (cases rest)
    case Nil
    with rng "2.prems" have p: "parent = level ! nat idx" by simp
    show ?thesis using Nil rng p
      by (auto simp: Let_def children_def split: option.splits)
  next
    case (Cons v va)
    with rng "2.prems" obtain subs where subs: "subNotes (level ! nat idx) = Some subs"
      and res: "getNoteByPath_loop subs rest = Some parent"
      by (auto simp: Let_def split: option.splits)
    have ch: "children (level ! nat idx) = subs" using subs by (simp add: children_def)
    from "2.IH"[OF rng refl _ subs res] Cons
    have ih: "setNoteByPath_loop subs (rest @ [k]) u =
     (case array_assign (children parent) k u of
        None \<Rightarrow> SetNotesMalformed
      | Some l \<Rightarrow> SetNotes (replace_at subs rest
                    (Note (title parent) (content parent) (Some l) (isCollapsed parent))))" by simp
    have rep: "replace_at level (idx # rest) x =
        level[nat idx := Note (title (level ! nat idx)) (content (level ! nat idx))
                   (Some (replace_at subs rest x)) (isCollapsed (level ! nat idx))]" for x
      using Cons ch by simp
    have "setNoteByPath_loop level (idx # (rest @ [k])) u =
         (if idx < 0 \<or> idx \<ge> int (length level) then Threw
          else (case setNoteByPath_loop (children (level ! nat idx)) (rest @ [k]) u of
                 SetNotes subs' \<Rightarrow>
                   SetNotes (level[nat idx :=
                     Note (title (level ! nat idx)) (content (level ! nat idx)) (Some subs')
                       (isCollapsed (level ! nat idx))])
               | e \<Rightarrow> e))"
      by (rule set_loop_step) simp
    also have "\<dots> = (case array_assign (children parent) k u of
        None \<Rightarrow> SetNotesMalformed
      | Some l \<Rightarrow> SetNotes (replace_at level (idx # rest)
                    (Note (title parent) (content parent) (Some l) (isCollapsed parent))))"
      using rng by (simp add: ch ih rep del: replace_at.simps split: option.splits)
    finally show ?thesis by simp
  qed
qed

subsection \<open>Outcomes of replacing by path\<close>

lemma set_loop_not_silent:
  "setNoteByPath_loop ns p u \<noteq> NoEffect \<and> setNoteByPath_loop ns p u \<noteq> Alerted"
proof (induction p arbitrary: ns)
  case Nil
  then show ?case by simp
next
  case (Cons i r)
  show ?case
  proof (cases "r = []")
    case True
    then show ?thesis by (simp split: option.splits)
  next
    case False
    show ?thesis using Cons[of "children (ns ! nat i)"]
      by (simp add: set_loop_step[OF False] del: setNoteByPath_loop.simps split: effect.splits)
  qed
qed

lemma get_Some_nonempty: "getNoteByPath ns p = Some n \<Longrightarrow> p \<noteq> [] \<and> getNoteByPath_loop ns p = Some n"
  by (auto simp: getNoteByPath_def split: if_splits)

lemma get_loop: "p \<noteq> [] \<Longrightarrow> getNoteByPath ns p = getNoteByPath_loop ns p"
  by (simp add: getNoteByPath_def)

text \<open>
  Claim C1, as the code has it. \<open>setNoteByPath\<close> checks no range and has no NotFound
  outcome. On a path that resolves it calls the setter with the forest in which that path
  resolves to the updated note: the root level keeps its length, every path that neither
  extends the path nor is a prefix of it resolves as before, and every ancestor keeps its
  title, content, collapsed flag and number of children. When the path before the last
  index does not resolve, reading \<open>subNotes\<close> of \<open>undefined\<close> raises and nothing is
  updated. When it resolves and the last index is the length of the level (the children
  of the parent, an empty sequence being created for a parent that has none; the root
  level for a path of one element), the note is appended there, so an update is produced
  although the last index is out of range.
\<close>

theorem setNoteByPath_outcomes:
  "(getNoteByPath ns p = Some old \<longrightarrow>
      setNoteByPath ns p u = SetNotes (replace_at ns p u) \<and>
      getNoteByPath (replace_at ns p u) p = Some u \<and>
      length (replace_at ns p u) = length ns \<and>
      (\<forall>q. \<not> prefix p q \<and> \<not> prefix q p \<longrightarrow>
           getNoteByPath (replace_at ns p u) q = getNoteByPath ns q) \<and>
      (\<forall>q. strict_prefix q p \<and> q \<noteq> [] \<longrightarrow>
           (\<exists>n n'. getNoteByPath ns q = Some n \<and> getNoteByPath (replace_at ns p u) q = Some n' \<and>
              title n' = title n \<and> content n' = content n \<and> isCollapsed n' = isCollapsed n \<and>
              length (children n') = length (children n))))
   \<and> (a \<noteq> [] \<and> getNoteByPath ns a = None \<longrightarrow> setNoteByPath ns (a @ [k]) u = Threw)
   \<and> (getNoteByPath ns b = Some parent \<longrightarrow>
        setNoteByPath ns (b @ [int (length (children parent))]) u =
          SetNotes (replace_at ns b
            (Note (title parent) (content parent) (Some (children parent @ [u])) (isCollapsed parent))))
   \<and> setNoteByPath ns [int (length ns)] u = SetNotes (ns @ [u])
   \<and> (p \<noteq> [] \<longrightarrow> setNoteByPath ns p u \<noteq> NoEffect)"
proof (intro conjI impI allI)
  assume r: "getNoteByPath ns p = Some old"
  then have p: "p \<noteq> []" and l: "getNoteByPath_loop ns p = Some old"
    using get_Some_nonempty by blast+
  show "setNoteByPath ns p u = SetNotes (replace_at ns p u)"
    using p set_loop_resolved[OF l] by (simp add: setNoteByPath_def)
  show "getNoteByPath (replace_at ns p u) p = Some u"
    using p loop_replace_same[OF l] by (simp add: getNoteByPath_def)
  show "length (replace_at ns p u) = length ns" by simp
  show "getNoteByPath (replace_at ns p u) q = getNoteByPath ns q"
    if "\<not> prefix p q \<and> \<not> prefix q p" for q
    using that loop_replace_other[OF l, of q u] by (simp add: getNoteByPath_def)
  show "\<exists>n n'. getNoteByPath ns q = Some n \<and> getNoteByPath (replace_at ns p u) q = Some n' \<and>
              title n' = title n \<and> content n' = content n \<and> isCollapsed n' = isCollapsed n \<and>
              length (children n') = length (children n)"
    if "strict_prefix q p \<and> q \<noteq> []" for q
  proof -
    from that loop_replace_ancestor[OF l, of q u] obtain n where
      "getNoteByPath_loop ns q = Some n"
      "getNoteByPath_loop (replace_at ns p u) q =
         Some (Note (title n) (content n)
                 (Some (replace_at (children n) (drop (length q) p) u)) (isCollapsed n))"
      by blast
    with that show ?thesis by (simp add: get_loop children_def)
  qed
next
  assume "a \<noteq> [] \<and> getNoteByPath ns a = None"
  then show "setNoteByPath ns (a @ [k]) u = Threw"
    using set_loop_unresolved_parent[of a ns k u] by (auto simp: setNoteByPath_def getNoteByPath_def)
next
  assume "getNoteByPath ns b = Some parent"
  then have l: "getNoteByPath_loop ns b = Some parent" using get_Some_nonempty by blast
  show "setNoteByPath ns (b @ [int (length (children parent))]) u =
          SetNotes (replace_at ns b
            (Note (title parent) (content parent) (Some (children parent @ [u])) (isCollapsed parent)))"
    using set_loop_resolved_parent[OF l, of "int (length (children parent))" u]
    by (simp add: setNoteByPath_def array_assign_def)
next
  show "setNoteByPath ns [int (length ns)] u = SetNotes (ns @ [u])"
    by (simp add: setNoteByPath_def array_assign_def)
next
  assume "p \<noteq> []"
  then show "setNoteByPath ns p u \<noteq> NoEffect"
    using set_loop_not_silent[of ns p u] by (simp add: setNoteByPath_def)
qed

theorem setNoteByPath_outcomes_witness:
  "getNoteByPath ex_forest [0, 0] = Some ex_sub \<and>
   setNoteByPath ex_forest [0, 0] newNote = SetNotes (replace_at ex_forest [0, 0] newNote) \<and>
   getNoteByPath (replace_at ex_forest [0, 0] newNote) [0, 0] = Some newNote \<and>
   getNoteByPath (replace_at ex_forest [0, 0] newNote) [1] = Some ex_plain \<and>
   title (the (getNoteByPath (replace_at ex_forest [0, 0] newNote) [0])) = ''Shopping'' \<and>
   getNoteByPath ex_forest [1, 5] = None \<and>
   setNoteByPath ex_forest [1, 5, 0] newNote = Threw \<and>
   getNoteByPath ex_forest [1] = Some ex_plain \<and>
   setNoteByPath ex_forest [1, 0] newNote =
     SetNotes (replace_at ex_forest [1] (Note ''Plain'' [] (Some [newNote]) None))"
proof -
  have h1: "getNoteByPath ex_forest [0, 0] = Some ex_sub"
    by (simp add: getNoteByPath_def ex_forest_def)
  have h2: "getNoteByPath ex_forest [1, 5] = None"
    by (simp add: getNoteByPath_def ex_forest_def ex_plain_def)
  have h3: "getNoteByPath ex_forest [1] = Some ex_plain"
    by (simp add: getNoteByPath_def ex_forest_def)
  have h4: "getNoteByPath ex_forest [0] = Some (ex_forest ! 0)"
    by (simp add: getNoteByPath_def ex_forest_def)
  note t = setNoteByPath_outcomes[of ex_forest "[0, 0]" ex_sub newNote "[1, 5]" 0 "[1]" ex_plain]
  from t h1 have c1: "setNoteByPath ex_forest [0, 0] newNote = SetNotes (replace_at ex_forest [0, 0] newNote)"
    and c2: "getNoteByPath (replace_at ex_forest [0, 0] newNote) [0, 0] = Some newNote"
    and c3: "\<forall>q. \<not> prefix [0, 0] q \<and> \<not> prefix q [0, 0] \<longrightarrow>
           getNoteByPath (replace_at ex_forest [0, 0] newNote) q = getNoteByPath ex_forest q"
    and c4: "\<forall>q. strict_prefix q [0, 0] \<and> q \<noteq> [] \<longrightarrow>
           (\<exists>n n'. getNoteByPath ex_forest q = Some n \<and>
              getNoteByPath (replace_at ex_forest [0, 0] newNote) q = Some n' \<and>
              title n' = title n \<and> content n' = content n \<and> isCollapsed n' = isCollapsed n \<and>
              length (children n') = length (children n))"
    by blast+
  from c3 have c3': "getNoteByPath (replace_at ex_forest [0, 0] newNote) [1] = getNoteByPath ex_forest [1]"
    by simp
  from c4 have "\<exists>n n'. getNoteByPath ex_forest [0] = Some n \<and>
              getNoteByPath (replace_at ex_forest [0, 0] newNote) [0] = Some n' \<and>
              title n' = title n \<and> content n' = content n \<and> isCollapsed n' = isCollapsed n \<and>
              length (children n') = length (children n)"
    by (simp add: strict_prefix_def)
  with h4 have c4': "title (the (getNoteByPath (replace_at ex_forest [0, 0] newNote) [0])) = ''Shopping''"
    by (auto simp: ex_forest_def)
  from t h2 have c5: "setNoteByPath ex_forest ([1, 5] @ [0]) newNote = Threw" by blast
  from t h3 have c6: "setNoteByPath ex_forest ([1] @ [int (length (children ex_plain))]) newNote =
          SetNotes (replace_at ex_forest [1]
            (Note (title ex_plain) (content ex_plain) (Some (children ex_plain @ [newNote]))
               (isCollapsed ex_plain)))" by blast
  from c6 have c6': "setNoteByPath ex_forest [1, 0] newNote =
     SetNotes (replace_at ex_forest [1] (Note ''Plain'' [] (Some [newNote]) None))"
    by (simp add: ex_plain_def children_def)
  from c5 have c5': "setNoteByPath ex_forest [1, 5, 0] newNote = Threw" by simp
  show ?thesis using h1 h2 h3 c1 c2 c3' c4' c5' c6' by simp
qed

text \<open>
  Claim C1 as stated fails: index \<open>0\<close> is out of range for the empty forest, and for the
  absent children of a root note, yet the setter is called with a grown forest.
\<close>

theorem setNoteByPath_out_of_range_counterexample:
  "getNoteByPath [] [0] = None \<and>
   setNoteByPath [] [0] newNote = SetNotes [newNote] \<and>
   apply_effect (setNoteByPath [] [0] newNote) [] \<noteq> [] \<and>
   getNoteByPath [ex_plain] [0, 0] = None \<and>
   setNoteByPath [ex_plain] [0, 0] newNote = SetNotes [Note ''Plain'' [] (Some [newNote]) None]"
  by (simp add: getNoteByPath_def setNoteByPath_def array_assign_def ex_plain_def)

text \<open>
  Claim C10: on the empty path \<open>getNoteByPath\<close> returns null and \<open>setNoteByPath\<close>
  returns before it touches anything, so the forest stays as it is.
\<close>

theorem empty_path_edge_case:
  "getNoteByPath ns [] = None \<and> setNoteByPath ns [] u = NoEffect \<and>
   apply_effect (setNoteByPath ns [] u) ns = ns"
  by (simp add: getNoteByPath_def setNoteByPath_def)

text \<open>
  Claim C9: every entry \<open>(path, note)\<close> of \<open>gatherAllNotes\<close> resolves, by
  \<open>getNoteByPath\<close> on the same forest, to that note; every note that resolves has its
  entry; no path is listed twice; and the number of entries is the number of notes of the
  forest, internal notes included.
\<close>

theorem gather_resolve_consistent:
  "(\<forall>(p, n) \<in> set (gatherAllNotes ns). getNoteByPath ns p = Some n) \<and>
   (\<forall>p n. getNoteByPath ns p = Some n \<longrightarrow> (p, n) \<in> set (gatherAllNotes ns)) \<and>
   distinct (map fst (gatherAllNotes ns)) \<and>
   length (gatherAllNotes ns) = count_notes ns"
  using gather_mem[of _ _ ns] preorder_distinct[of "[]" 0 ns] preorder_length[of "[]" 0 ns]
  by (auto simp: gatherAllNotes_def dfs_preorder)

theorem gather_resolve_consistent_witness:
  "gatherAllNotes ex_forest = [([0], ex_forest ! 0), ([0, 0], ex_sub), ([1], ex_plain)] \<and>
   getNoteByPath ex_forest [0, 0] = Some ex_sub \<and>
   ([0, 0], ex_sub) \<in> set (gatherAllNotes ex_forest) \<and>
   getNoteByPath ex_forest [1] = Some ex_plain \<and>
   distinct (map fst (gatherAllNotes ex_forest)) \<and>
   count_notes ex_forest = 3"
proof -
  have g: "gatherAllNotes ex_forest = [([0], ex_forest ! 0), ([0, 0], ex_sub), ([1], ex_plain)]"
    by (simp add: gatherAllNotes_def ex_forest_def ex_sub_def ex_plain_def Let_def)
  have h: "getNoteByPath ex_forest [0, 0] = Some ex_sub"
    by (simp add: getNoteByPath_def ex_forest_def)
  note t = gather_resolve_consistent[of ex_forest]
  from t h have m: "([0, 0], ex_sub) \<in> set (gatherAllNotes ex_forest)" by blast
  from t have a: "\<forall>(p, n) \<in> set (gatherAllNotes ex_forest). getNoteByPath ex_forest p = Some n"
    by blast
  with g have r: "getNoteByPath ex_forest [1] = Some ex_plain" by simp
  from t have d: "distinct (map fst (gatherAllNotes ex_forest))" by blast
  from t g have c: "count_notes ex_forest = 3" by simp
  show ?thesis using g h m r d c by blast
qed

subsection \<open>Paths above, below and beside a replaced note\<close>

lemma loop_nil [simp]: "getNoteByPath_loop [] r = None"
  by (cases r) auto

lemma loop_children:
  "(case subNotes n of None \<Rightarrow> None | Some s \<Rightarrow> getNoteByPath_loop s r) = getNoteByPath_loop (children n) r"
  by (simp add: children_def split: option.splits)

lemma loop_append_children:
  "p \<noteq> [] \<Longrightarrow> r \<noteq> [] \<Longrightarrow> getNoteByPath_loop ns (p @ r) =
     (case getNoteByPath_loop ns p of None \<Rightarrow> None | Some n \<Rightarrow> getNoteByPath_loop (children n) r)"
  by (cases "getNoteByPath_loop ns p") (simp_all add: loop_append loop_children)

lemma loop_Some_nonempty: "getNoteByPath_loop ns p = Some n \<Longrightarrow> p \<noteq> []"
  by (cases p) auto

lemma path_cases:
  obtains (same) "q = p" | (below) r where "q = p @ r" "r \<noteq> []"
        | (above) "strict_prefix q p" | (other) "\<not> prefix p q" "\<not> prefix q p"
  by (metis prefix_def strict_prefix_def self_append_conv)

lemma loop_replace_below:
  assumes "getNoteByPath_loop ns p = Some old" "r \<noteq> []"
  shows "getNoteByPath_loop (replace_at ns p u) (p @ r) = getNoteByPath_loop (children u) r"
    and "getNoteByPath_loop ns (p @ r) = getNoteByPath_loop (children old) r"
  using assms loop_replace_same[OF assms(1), of u] loop_Some_nonempty[OF assms(1)]
  by (simp_all add: loop_append_children)

lemma loop_snoc:
  "getNoteByPath_loop (xs @ [x]) (j # r) =
     (if j = int (length xs) then (if r = [] then Some x else getNoteByPath_loop (children x) r)
      else getNoteByPath_loop xs (j # r))"
proof (cases "0 \<le> j \<and> j < int (length xs)")
  case True
  then have "nat j < length xs" by linarith
  then have "(xs @ [x]) ! nat j = xs ! nat j" by (simp add: nth_append)
  with True show ?thesis by (simp add: Let_def)
next
  case False
  then show ?thesis by (auto simp: Let_def nth_append children_def split: option.splits)
qed

text \<open>What resolves after a note on a resolving path has been replaced.\<close>

lemma replace_resolves:
  assumes p: "getNoteByPath_loop ns p = Some old"
    and q: "getNoteByPath_loop (replace_at ns p u) q = Some n'"
  shows "(q = p \<and> n' = u)
       \<or> (\<exists>r. r \<noteq> [] \<and> q = p @ r \<and> getNoteByPath_loop (children u) r = Some n')
       \<or> (strict_prefix q p \<and> (\<exists>n. getNoteByPath_loop ns q = Some n \<and> title n' = title n
              \<and> content n' = content n \<and> isCollapsed n' = isCollapsed n))
       \<or> (\<not> prefix p q \<and> \<not> prefix q p \<and> getNoteByPath_loop ns q = Some n')"
proof (cases q p rule: path_cases)
  case same
  with q loop_replace_same[OF p, of u] show ?thesis by simp
next
  case (below r)
  with q loop_replace_below(1)[OF p below(2), of u] show ?thesis by simp
next
  case above
  from q have "q \<noteq> []" by (rule loop_Some_nonempty)
  from loop_replace_ancestor[OF p above this, of u] q above show ?thesis by auto
next
  case other
  with q loop_replace_other[OF p other, of u] show ?thesis by simp
qed


subsection \<open>Adding a sub note\<close>


lemma loop_snoc_leaf:
  assumes "getNoteByPath_loop (xs @ [x]) r = Some n" "children x = []"
  shows "getNoteByPath_loop xs r = Some n \<or> (r = [int (length xs)] \<and> n = x)"
proof (cases r)
  case Nil
  with assms show ?thesis by simp
next
  case (Cons j r')
  with assms show ?thesis
    by (auto simp: loop_snoc simp del: getNoteByPath_loop.simps split: if_splits)
qed

lemma children_simps [simp]:
  "children (Note t c (Some s) col) = s" "children (Note t c None col) = []"
  by (simp_all add: children_def)

lemma children_case: "(case subNotes n of Some s \<Rightarrow> s | None \<Rightarrow> []) = children n"
  by (simp add: children_def split: option.splits)

lemma handleAddSubNote_unresolved: "getNoteByPath ns p = None \<Longrightarrow> handleAddSubNote ns p = NoEffect"
  by (simp add: handleAddSubNote_def)

lemma handleAddSubNote_deep:
  "getNoteByPath ns p = Some parent \<Longrightarrow> length p \<ge> 4 \<Longrightarrow> handleAddSubNote ns p = Alerted"
  by (simp add: handleAddSubNote_def)

lemma handleAddSubNote_resolved:
  assumes "getNoteByPath ns p = Some parent" "length p < 4"
  shows "handleAddSubNote ns p =
    SetNotes (replace_at ns p
      (Note (title parent) (content parent) (Some (children parent @ [newSubNote])) (isCollapsed parent)))"
proof -
  from assms(1) have "p \<noteq> []" "getNoteByPath_loop ns p = Some parent"
    using get_Some_nonempty by blast+
  with assms show ?thesis
    by (simp add: handleAddSubNote_def children_case Let_def setNoteByPath_def set_loop_resolved)
qed

lemma handleToggleCollapse_resolved:
  assumes "getNoteByPath ns p = Some n"
  shows "handleToggleCollapse ns p =
    SetNotes (replace_at ns p
      (Note (title n) (content n) (subNotes n)
         (Some (case isCollapsed n of None \<Rightarrow> True | Some b \<Rightarrow> \<not> b))))"
proof -
  from assms have "p \<noteq> []" "getNoteByPath_loop ns p = Some n"
    using get_Some_nonempty by blast+
  with assms show ?thesis
    by (simp add: handleToggleCollapse_def setNoteByPath_def set_loop_resolved)
qed

lemma handleNoteTitleChange_resolved:
  assumes "getNoteByPath ns p = Some n"
  shows "handleNoteTitleChange ns p v =
    SetNotes (replace_at ns p (Note v (content n) (subNotes n) (isCollapsed n)))"
proof -
  from assms have "p \<noteq> []" "getNoteByPath_loop ns p = Some n"
    using get_Some_nonempty by blast+
  with assms show ?thesis
    by (simp add: handleNoteTitleChange_def setNoteByPath_def set_loop_resolved)
qed

lemma handleNoteContentChange_resolved:
  assumes "getNoteByPath ns p = Some n"
  shows "handleNoteContentChange ns p v =
    SetNotes (replace_at ns p (Note (title n) v (subNotes n) (isCollapsed n)))"
proof -
  from assms have "p \<noteq> []" "getNoteByPath_loop ns p = Some n"
    using get_Some_nonempty by blast+
  with assms show ?thesis
    by (simp add: handleNoteContentChange_def setNoteByPath_def set_loop_resolved)
qed

lemma handler_effects:
  "handleAddSubNote ns p \<noteq> Threw \<and> handleAddSubNote ns p \<noteq> SetNotesMalformed"
  "handleToggleCollapse ns p \<noteq> Threw \<and> handleToggleCollapse ns p \<noteq> SetNotesMalformed"
  "handleNoteTitleChange ns p v \<noteq> Threw \<and> handleNoteTitleChange ns p v \<noteq> SetNotesMalformed"
  "handleNoteContentChange ns p v \<noteq> Threw \<and> handleNoteContentChange ns p v \<noteq> SetNotesMalformed"
proof -
  show "handleAddSubNote ns p \<noteq> Threw \<and> handleAddSubNote ns p \<noteq> SetNotesMalformed"
  proof (cases "getNoteByPath ns p")
    case None
    then show ?thesis by (simp add: handleAddSubNote_unresolved)
  next
    case (Some parent)
    then show ?thesis
      by (cases "length p \<ge> 4") (simp_all add: handleAddSubNote_deep handleAddSubNote_resolved)
  qed
  show "handleToggleCollapse ns p \<noteq> Threw \<and> handleToggleCollapse ns p \<noteq> SetNotesMalformed"
  proof (cases "getNoteByPath ns p")
    case None
    then show ?thesis by (simp add: handleToggleCollapse_def)
  next
    case (Some n)
    then show ?thesis by (simp add: handleToggleCollapse_resolved)
  qed
  show "handleNoteTitleChange ns p v \<noteq> Threw \<and> handleNoteTitleChange ns p v \<noteq> SetNotesMalformed"
  proof (cases "getNoteByPath ns p")
    case None
    then show ?thesis by (simp add: handleNoteTitleChange_def)
  next
    case (Some n)
    then show ?thesis by (simp add: handleNoteTitleChange_resolved)
  qed
  show "handleNoteContentChange ns p v \<noteq> Threw \<and> handleNoteContentChange ns p v \<noteq> SetNotesMalformed"
  proof (cases "getNoteByPath ns p")
    case None
    then show ?thesis by (simp add: handleNoteContentChange_def)
  next
    case (Some n)
    then show ?thesis by (simp add: handleNoteContentChange_resolved)
  qed
qed

lemma add_child_resolves:
  assumes "getNoteByPath ns p = Some parent"
  shows "getNoteByPath (replace_at ns p
      (Note (title parent) (content parent) (Some (children parent @ [x])) (isCollapsed parent)))
      (p @ [int (length (children parent))]) = Some x"
proof -
  let ?u = "Note (title parent) (content parent) (Some (children parent @ [x])) (isCollapsed parent)"
  from assms have l: "getNoteByPath_loop ns p = Some parent" using get_Some_nonempty by blast
  have "getNoteByPath_loop (replace_at ns p ?u) (p @ [int (length (children parent))]) =
      getNoteByPath_loop (children ?u) [int (length (children parent))]"
    by (rule loop_replace_below(1)[OF l]) simp
  then show ?thesis by (simp add: getNoteByPath_def)
qed

text \<open>
  Claim C2, as the code has it. The handler resolves the parent first: a parent path that
  does not resolve makes it return at once, whatever the length of the path. A parent
  path that resolves and has four or more elements raises the alert on the nesting depth.
  In both cases the forest is left as it is. Otherwise the setter is called with the
  forest in which the parent has the new note as its last child, at the path of the
  parent followed by the former number of children; the parent keeps title, content and
  collapsed flag.
\<close>

theorem handleAddSubNote_outcomes:
  "(getNoteByPath ns p = None \<longrightarrow>
      handleAddSubNote ns p = NoEffect \<and> apply_effect (handleAddSubNote ns p) ns = ns)
   \<and> (getNoteByPath ns p = Some parent \<and> length p \<ge> 4 \<longrightarrow>
      handleAddSubNote ns p = Alerted \<and> apply_effect (handleAddSubNote ns p) ns = ns)
   \<and> (getNoteByPath ns p = Some parent \<and> length p < 4 \<longrightarrow>
      (\<exists>ns'. handleAddSubNote ns p = SetNotes ns' \<and>
         getNoteByPath ns' p =
           Some (Note (title parent) (content parent) (Some (children parent @ [newSubNote]))
                   (isCollapsed parent)) \<and>
         getNoteByPath ns' (p @ [int (length (children parent))]) = Some newSubNote \<and>
         created_path (AddSubNote p) ns = Some (p @ [int (length (children parent))])))"
proof (intro conjI impI)
  assume "getNoteByPath ns p = None"
  then show "handleAddSubNote ns p = NoEffect" "apply_effect (handleAddSubNote ns p) ns = ns"
    by (simp_all add: handleAddSubNote_unresolved)
next
  assume "getNoteByPath ns p = Some parent \<and> length p \<ge> 4"
  then show "handleAddSubNote ns p = Alerted" "apply_effect (handleAddSubNote ns p) ns = ns"
    by (simp_all add: handleAddSubNote_deep)
next
  assume a: "getNoteByPath ns p = Some parent \<and> length p < 4"
  let ?u = "Note (title parent) (content parent) (Some (children parent @ [newSubNote]))
                   (isCollapsed parent)"
  from a have p: "p \<noteq> []" and l: "getNoteByPath_loop ns p = Some parent"
    using get_Some_nonempty by blast+
  have 1: "handleAddSubNote ns p = SetNotes (replace_at ns p ?u)"
    using a handleAddSubNote_resolved by blast
  have 2: "getNoteByPath (replace_at ns p ?u) p = Some ?u"
    using p loop_replace_same[OF l, of ?u] by (simp add: getNoteByPath_def)
  have 3: "getNoteByPath (replace_at ns p ?u) (p @ [int (length (children parent))]) = Some newSubNote"
    using a add_child_resolves by blast
  have 4: "created_path (AddSubNote p) ns = Some (p @ [int (length (children parent))])"
    using a by (simp add: children_case)
  show "\<exists>ns'. handleAddSubNote ns p = SetNotes ns' \<and>
         getNoteByPath ns' p = Some ?u \<and>
         getNoteByPath ns' (p @ [int (length (children parent))]) = Some newSubNote \<and>
         created_path (AddSubNote p) ns = Some (p @ [int (length (children parent))])"
    using 1 2 3 4 by blast
qed

theorem handleAddSubNote_outcomes_witness:
  "getNoteByPath ex_forest [7] = None \<and> handleAddSubNote ex_forest [7] = NoEffect \<and>
   getNoteByPath ex_deep [0, 0, 0, 0] = Some ex_sub \<and>
   handleAddSubNote ex_deep [0, 0, 0, 0] = Alerted \<and>
   apply_effect (handleAddSubNote ex_deep [0, 0, 0, 0]) ex_deep = ex_deep \<and>
   getNoteByPath ex_forest [0] = Some (ex_forest ! 0) \<and>
   getNoteByPath (apply_effect (handleAddSubNote ex_forest [0]) ex_forest) [0, 1] = Some newSubNote \<and>
   getNoteByPath (apply_effect (handleAddSubNote ex_forest [0]) ex_forest) [0] =
     Some (Note ''Shopping'' ''milk eggs'' (Some [ex_sub, newSubNote]) (Some False))"
proof -
  have h1: "getNoteByPath ex_forest [7] = None"
    by (simp add: getNoteByPath_def ex_forest_def)
  have h2: "getNoteByPath ex_deep [0, 0, 0, 0] = Some ex_sub"
    by (simp add: getNoteByPath_def ex_deep_def)
  have h3: "getNoteByPath ex_forest [0] = Some (ex_forest ! 0)"
    by (simp add: getNoteByPath_def ex_forest_def)
  from handleAddSubNote_outcomes[of ex_forest "[7]"] h1
  have c1: "handleAddSubNote ex_forest [7] = NoEffect" by blast
  from handleAddSubNote_outcomes[of ex_deep "[0, 0, 0, 0]" ex_sub] h2
  have c2: "handleAddSubNote ex_deep [0, 0, 0, 0] = Alerted"
    and c3: "apply_effect (handleAddSubNote ex_deep [0, 0, 0, 0]) ex_deep = ex_deep" by simp_all
  from handleAddSubNote_outcomes[of ex_forest "[0]" "ex_forest ! 0"] h3
  obtain ns' where n: "handleAddSubNote ex_forest [0] = SetNotes ns'"
    and c4: "getNoteByPath ns' [0] =
           Some (Note (title (ex_forest ! 0)) (content (ex_forest ! 0))
                   (Some (children (ex_forest ! 0) @ [newSubNote])) (isCollapsed (ex_forest ! 0)))"
    and c5: "getNoteByPath ns' ([0] @ [int (length (children (ex_forest ! 0)))]) = Some newSubNote"
    by auto
  from n have a: "apply_effect (handleAddSubNote ex_forest [0]) ex_forest = ns'" by simp
  from c4 have c4': "getNoteByPath ns' [0] =
     Some (Note ''Shopping'' ''milk eggs'' (Some [ex_sub, newSubNote]) (Some False))"
    by (simp add: ex_forest_def)
  from c5 have c5': "getNoteByPath ns' [0, 1] = Some newSubNote"
    by (simp add: ex_forest_def)
  show ?thesis using h1 h2 h3 c1 c2 c3 c4' c5' a by simp
qed

text \<open>
  Claim C2 as stated fails: a parent path of length four that does not resolve makes the
  handler return without the alert.
\<close>

theorem handleAddSubNote_length4_counterexample:
  "length [0, 0, 0, 0 :: int] = 4 \<and> handleAddSubNote [] [0, 0, 0, 0] = NoEffect \<and>
   handleAddSubNote [] [0, 0, 0, 0] \<noteq> Alerted"
  by (simp add: handleAddSubNote_def getNoteByPath_def)

subsection \<open>The nesting depth\<close>


lemma replace_depth:
  assumes D: "\<And>q n. getNoteByPath_loop ns q = Some n \<Longrightarrow> length q \<le> 4"
    and p: "getNoteByPath_loop ns p = Some old"
    and ch: "\<And>r n. getNoteByPath_loop (children u) r = Some n \<Longrightarrow> length p + length r \<le> 4"
    and q: "getNoteByPath_loop (replace_at ns p u) q = Some n'"
  shows "length q \<le> 4"
  using replace_resolves[OF p q]
proof (elim disjE conjE exE)
  assume "q = p"
  with D[OF p] show ?thesis by simp
next
  fix r assume "q = p @ r" "getNoteByPath_loop (children u) r = Some n'"
  with ch[of r n'] show ?thesis by simp
next
  assume "strict_prefix q p"
  then have "length q < length p" by (rule prefix_length_less)
  with D[OF p] show ?thesis by simp
next
  assume "getNoteByPath_loop ns q = Some n'"
  then show ?thesis by (rule D)
qed

lemma replace_depth_same_children:
  assumes D: "\<And>q n. getNoteByPath_loop ns q = Some n \<Longrightarrow> length q \<le> 4"
    and p: "getNoteByPath_loop ns p = Some old"
    and c: "children u = children old"
    and q: "getNoteByPath_loop (replace_at ns p u) q = Some n'"
  shows "length q \<le> 4"
proof (rule replace_depth[OF D p _ q])
  fix r n assume r: "getNoteByPath_loop (children u) r = Some n"
  then have "r \<noteq> []" by (rule loop_Some_nonempty)
  from loop_replace_below(2)[OF p this] r c have "getNoteByPath_loop ns (p @ r) = Some n" by simp
  from D[OF this] show "length p + length r \<le> 4" by simp
qed

lemma effect_depth_same_children:
  assumes D: "\<And>q n. getNoteByPath_loop ns q = Some n \<Longrightarrow> length q \<le> 4"
    and e: "\<And>old. getNoteByPath ns p = Some old \<Longrightarrow>
              \<exists>u. e = SetNotes (replace_at ns p u) \<and> children u = children old"
    and n: "getNoteByPath ns p = None \<Longrightarrow> e = NoEffect"
    and q: "getNoteByPath_loop (apply_effect e ns) q = Some n'"
  shows "length q \<le> 4"
proof (cases "getNoteByPath ns p")
  case None
  with n q D show ?thesis by simp
next
  case (Some old)
  from e[OF Some] obtain u where u: "e = SetNotes (replace_at ns p u)" "children u = children old"
    by blast
  from Some have "getNoteByPath_loop ns p = Some old" using get_Some_nonempty by blast
  from replace_depth_same_children[OF D this u(2)] q u(1) show ?thesis by simp
qed

lemma step_depth:
  assumes D: "\<And>q n. getNoteByPath_loop (notes st) q = Some n \<Longrightarrow> length q \<le> 4"
    and q: "getNoteByPath_loop (notes (step a st)) q = Some n'"
  shows "length q \<le> 4"
proof (cases a)
  case NewNote
  with q have "getNoteByPath_loop (notes st @ [newNote]) q = Some n'"
    by (simp add: handleNewNote_def)
  from loop_snoc_leaf[OF this] D show ?thesis by (auto simp: newNote_def)
next
  case (AddSubNote p)
  show ?thesis
  proof (cases "getNoteByPath (notes st) p")
    case None
    with q AddSubNote D show ?thesis by (simp add: handleAddSubNote_unresolved)
  next
    case (Some parent)
    show ?thesis
    proof (cases "length p \<ge> 4")
      case True
      with q AddSubNote Some D show ?thesis by (simp add: handleAddSubNote_deep)
    next
      case False
      let ?u = "Note (title parent) (content parent) (Some (children parent @ [newSubNote]))
                  (isCollapsed parent)"
      from Some have l: "getNoteByPath_loop (notes st) p = Some parent"
        using get_Some_nonempty by blast
      from False Some q AddSubNote
      have q': "getNoteByPath_loop (replace_at (notes st) p ?u) q = Some n'"
        by (simp add: handleAddSubNote_resolved)
      show ?thesis
      proof (rule replace_depth[OF D l _ q'])
        fix r n assume "getNoteByPath_loop (children ?u) r = Some n"
        then have r: "getNoteByPath_loop (children parent @ [newSubNote]) r = Some n" by simp
        then have ne: "r \<noteq> []" by (rule loop_Some_nonempty)
        from loop_snoc_leaf[OF r] have
          "getNoteByPath_loop (children parent) r = Some n \<or> r = [int (length (children parent))]"
          by (auto simp: newSubNote_def)
        then show "length p + length r \<le> 4"
        proof
          assume "getNoteByPath_loop (children parent) r = Some n"
          with loop_replace_below(2)[OF l ne]
          have "getNoteByPath_loop (notes st) (p @ r) = Some n" by simp
          from D[OF this] show ?thesis by simp
        next
          assume "r = [int (length (children parent))]"
          with False show ?thesis by simp
        qed
      qed
    qed
  qed
next
  case (ToggleCollapse p)
  show ?thesis
  proof (rule effect_depth_same_children[OF D, where p = p and e = "handleToggleCollapse (notes st) p"])
    fix old assume "getNoteByPath (notes st) p = Some old"
    from handleToggleCollapse_resolved[OF this]
    show "\<exists>u. handleToggleCollapse (notes st) p = SetNotes (replace_at (notes st) p u)
         \<and> children u = children old"
      by (auto simp: children_def)
  next
    assume "getNoteByPath (notes st) p = None"
    then show "handleToggleCollapse (notes st) p = NoEffect" by (simp add: handleToggleCollapse_def)
  next
    from q ToggleCollapse
    show "getNoteByPath_loop (apply_effect (handleToggleCollapse (notes st) p) (notes st)) q = Some n'"
      by simp
  qed
next
  case (TitleChange v)
  let ?p = "selectedPath st"
  show ?thesis
  proof (rule effect_depth_same_children[OF D, where p = "?p" and e = "handleNoteTitleChange (notes st) ?p v"])
    fix old assume "getNoteByPath (notes st) ?p = Some old"
    from handleNoteTitleChange_resolved[OF this]
    show "\<exists>u. handleNoteTitleChange (notes st) ?p v = SetNotes (replace_at (notes st) ?p u)
         \<and> children u = children old"
      by (auto simp: children_def)
  next
    assume "getNoteByPath (notes st) ?p = None"
    then show "handleNoteTitleChange (notes st) ?p v = NoEffect"
      by (simp add: handleNoteTitleChange_def)
  next
    from q TitleChange
    show "getNoteByPath_loop (apply_effect (handleNoteTitleChange (notes st) ?p v) (notes st)) q = Some n'"
      by simp
  qed
next
  case (ContentChange v)
  let ?p = "selectedPath st"
  show ?thesis
  proof (rule effect_depth_same_children[OF D, where p = "?p" and e = "handleNoteContentChange (notes st) ?p v"])
    fix old assume "getNoteByPath (notes st) ?p = Some old"
    from handleNoteContentChange_resolved[OF this]
    show "\<exists>u. handleNoteContentChange (notes st) ?p v = SetNotes (replace_at (notes st) ?p u)
         \<and> children u = children old"
      by (auto simp: children_def)
  next
    assume "getNoteByPath (notes st) ?p = None"
    then show "handleNoteContentChange (notes st) ?p v = NoEffect"
      by (simp add: handleNoteContentChange_def)
  next
    from q ContentChange
    show "getNoteByPath_loop (apply_effect (handleNoteContentChange (notes st) ?p v) (notes st)) q = Some n'"
      by simp
  qed
next
  case (SelectPath p)
  with q D show ?thesis by simp
next
  case GoHome
  with q D show ?thesis by simp
qed

lemma run_depth:
  "(\<And>q n. getNoteByPath_loop (notes st) q = Some n \<Longrightarrow> length q \<le> 4) \<Longrightarrow>
   getNoteByPath_loop (notes (run acts st)) q = Some n' \<Longrightarrow> length q \<le> 4"
proof (induction acts arbitrary: st)
  case Nil
  then show ?case by simp
next
  case (Cons a acts)
  show ?case
  proof (rule Cons.IH[of "step a st"])
    fix q n assume "getNoteByPath_loop (notes (step a st)) q = Some n"
    then show "length q \<le> 4" using step_depth[of st a q n] Cons.prems(1) by blast
  next
    from Cons.prems(2) show "getNoteByPath_loop (notes (run acts (step a st))) q = Some n'" by simp
  qed
qed

lemma created_path_length:
  "created_path a ns = Some cp \<Longrightarrow> 1 \<le> length cp \<and> length cp \<le> 4"
proof (cases a)
  case (AddSubNote p)
  assume "created_path a ns = Some cp"
  with AddSubNote show ?thesis
    by (auto split: option.splits if_splits)
qed auto

text \<open>
  Claim C5: from the empty forest, after any sequence of actions (creating, collapsing,
  editing, selecting), every entry of the traversal and every path that resolves has
  between one and four elements, and so has every path at which a create action of the
  sequence places its note.
\<close>

theorem depth_invariant:
  "notes st = [] \<longrightarrow>
   (\<forall>(p, n) \<in> set (gatherAllNotes (notes (run acts st))). 1 \<le> length p \<and> length p \<le> 4) \<and>
   (\<forall>p n. getNoteByPath (notes (run acts st)) p = Some n \<longrightarrow> 1 \<le> length p \<and> length p \<le> 4) \<and>
   (\<forall>pre a post cp. acts = pre @ a # post \<and> created_path a (notes (run pre st)) = Some cp \<longrightarrow>
        1 \<le> length cp \<and> length cp \<le> 4)"
proof (intro impI conjI)
  assume e: "notes st = []"
  have r: "1 \<le> length p \<and> length p \<le> 4" if "getNoteByPath (notes (run acts st)) p = Some n" for p n
  proof -
    from that have p: "p \<noteq> []" and l: "getNoteByPath_loop (notes (run acts st)) p = Some n"
      using get_Some_nonempty by blast+
    have "length p \<le> 4"
      by (rule run_depth[OF _ l]) (simp add: e)
    with p show ?thesis by (cases p) auto
  qed
  then show "\<forall>p n. getNoteByPath (notes (run acts st)) p = Some n \<longrightarrow> 1 \<le> length p \<and> length p \<le> 4"
    by blast
  show "\<forall>(p, n) \<in> set (gatherAllNotes (notes (run acts st))). 1 \<le> length p \<and> length p \<le> 4"
    using r gather_mem by blast
  show "\<forall>pre a post cp. acts = pre @ a # post \<and> created_path a (notes (run pre st)) = Some cp \<longrightarrow>
        1 \<le> length cp \<and> length cp \<le> 4"
    using created_path_length by blast
qed

subsection \<open>Creating and resolving again\<close>

lemma run_deep_example:
  "notes (run [NewNote, AddSubNote [0], AddSubNote [0, 0], AddSubNote [0, 0, 0],
               AddSubNote [0, 0, 0, 0]] initial) =
   [Note ''Untitled Note'' [] (Some [Note ''Untitled SubNote'' [] (Some [
      Note ''Untitled SubNote'' [] (Some [newSubNote]) (Some False)]) (Some False)]) (Some False)]"
  by (simp add: initial_def handleNewNote_def handleAddSubNote_def getNoteByPath_def
      setNoteByPath_def array_assign_def newNote_def newSubNote_def Let_def)

theorem depth_invariant_witness:
  "notes initial = [] \<and>
   map fst (gatherAllNotes (notes (run [NewNote, AddSubNote [0], AddSubNote [0, 0],
       AddSubNote [0, 0, 0], AddSubNote [0, 0, 0, 0]] initial))) =
     [[0], [0, 0], [0, 0, 0], [0, 0, 0, 0]] \<and>
   getNoteByPath (notes (run [NewNote, AddSubNote [0], AddSubNote [0, 0],
       AddSubNote [0, 0, 0], AddSubNote [0, 0, 0, 0]] initial)) [0, 0, 0, 0] = Some newSubNote \<and>
   handleAddSubNote (notes (run [NewNote, AddSubNote [0], AddSubNote [0, 0],
       AddSubNote [0, 0, 0]] initial)) [0, 0, 0, 0] = Alerted \<and>
   created_path (AddSubNote [0, 0, 0]) (notes (run [NewNote, AddSubNote [0], AddSubNote [0, 0]]
       initial)) = Some [0, 0, 0, 0] \<and>
   1 \<le> length [0, 0, 0, 0 :: int] \<and> length [0, 0, 0, 0 :: int] \<le> 4"
proof -
  let ?acts = "[NewNote, AddSubNote [0], AddSubNote [0, 0], AddSubNote [0, 0, 0],
               AddSubNote [0, 0, 0, 0]]"
  have h0: "notes initial = []" by (simp add: initial_def)
  have h1: "map fst (gatherAllNotes (notes (run ?acts initial))) =
      [[0], [0, 0], [0, 0, 0], [0, 0, 0, 0]]"
    by (subst run_deep_example) (simp add: gatherAllNotes_def newSubNote_def Let_def)
  have h2: "getNoteByPath (notes (run ?acts initial)) [0, 0, 0, 0] = Some newSubNote"
    by (subst run_deep_example) (simp add: getNoteByPath_def)
  have h3: "handleAddSubNote (notes (run [NewNote, AddSubNote [0], AddSubNote [0, 0],
       AddSubNote [0, 0, 0]] initial)) [0, 0, 0, 0] = Alerted"
    by (simp add: initial_def handleNewNote_def handleAddSubNote_def getNoteByPath_def
      setNoteByPath_def array_assign_def newNote_def newSubNote_def Let_def)
  have h4: "created_path (AddSubNote [0, 0, 0]) (notes (run [NewNote, AddSubNote [0],
       AddSubNote [0, 0]] initial)) = Some [0, 0, 0, 0]"
    by (simp add: initial_def handleNewNote_def handleAddSubNote_def getNoteByPath_def
      setNoteByPath_def array_assign_def newNote_def newSubNote_def Let_def)
  from depth_invariant[of initial ?acts] h0 h2
  have "1 \<le> length [0, 0, 0, 0 :: int] \<and> length [0, 0, 0, 0 :: int] \<le> 4" by blast
  with h0 h1 h2 h3 h4 show ?thesis by blast
qed







subsection \<open>Searching\<close>

lemma str_includes_sublist: "str_includes s q \<longleftrightarrow> sublist q s"
  by (induction s) (simp_all add: sublist_Cons_right)

lemma search_matches_sublist:
  "search_matches toLowerCase lowerQ (p, n) \<longleftrightarrow>
     sublist lowerQ (toLowerCase (title n)) \<or> sublist lowerQ (toLowerCase (content n))"
  by (simp add: search_matches_def str_includes_sublist)

lemma gather_preorder: "gatherAllNotes ns = preorder [] 0 ns"
  by (simp add: gatherAllNotes_def dfs_preorder)

text \<open>
  Claim C3: with the panel open, a query that is empty after trimming gives no results;
  any other query gives the entries of \<open>gatherAllNotes\<close>, which is the pre-order
  traversal, whose title or content in lower case contains the query in lower case, in
  the order of the traversal. A note at any depth is among the results exactly when it
  resolves and matches. This holds whatever the engine's \<open>trim\<close> and \<open>toLowerCase\<close>
  return.
\<close>

theorem search_complete:
  "searchOpen sp \<longrightarrow>
     gatherAllNotes ns = preorder [] 0 ns \<and>
     (trim (searchQuery sp) = [] \<longrightarrow> searchResults (search_effect trim toLowerCase ns sp) = []) \<and>
     (trim (searchQuery sp) \<noteq> [] \<longrightarrow>
        searchResults (search_effect trim toLowerCase ns sp) =
          filter (\<lambda>(p, n). sublist (toLowerCase (searchQuery sp)) (toLowerCase (title n)) \<or>
                           sublist (toLowerCase (searchQuery sp)) (toLowerCase (content n)))
            (gatherAllNotes ns) \<and>
        (\<forall>p n. (p, n) \<in> set (searchResults (search_effect trim toLowerCase ns sp)) \<longleftrightarrow>
           getNoteByPath ns p = Some n \<and>
           (sublist (toLowerCase (searchQuery sp)) (toLowerCase (title n)) \<or>
            sublist (toLowerCase (searchQuery sp)) (toLowerCase (content n)))))"
proof (intro impI conjI)
  show "gatherAllNotes ns = preorder [] 0 ns" by (rule gather_preorder)
next
  assume "searchOpen sp" "trim (searchQuery sp) = []"
  then show "searchResults (search_effect trim toLowerCase ns sp) = []" by (simp add: search_effect_def)
next
  assume o: "searchOpen sp" and t: "trim (searchQuery sp) \<noteq> []"
  let ?P = "\<lambda>(p, n). sublist (toLowerCase (searchQuery sp)) (toLowerCase (title n)) \<or>
                           sublist (toLowerCase (searchQuery sp)) (toLowerCase (content n))"
  have "search_matches toLowerCase (toLowerCase (searchQuery sp)) = ?P"
    by (rule ext) (simp add: search_matches_sublist split: prod.splits)
  with o t show r: "searchResults (search_effect trim toLowerCase ns sp) = filter ?P (gatherAllNotes ns)"
    by (simp add: search_effect_def Let_def)
  show "\<forall>p n. (p, n) \<in> set (searchResults (search_effect trim toLowerCase ns sp)) \<longleftrightarrow>
           getNoteByPath ns p = Some n \<and>
           (sublist (toLowerCase (searchQuery sp)) (toLowerCase (title n)) \<or>
            sublist (toLowerCase (searchQuery sp)) (toLowerCase (content n)))"
    unfolding r by (simp add: gather_mem)
qed

theorem search_complete_witness:
  "searchOpen ex_panel \<and> ascii_trim (searchQuery ex_panel) \<noteq> [] \<and>
   ascii_toLowerCase (searchQuery ex_panel) = ''bread'' \<and>
   searchResults (search_effect ascii_trim ascii_toLowerCase ex_forest ex_panel) = [([0, 0], ex_sub)] \<and>
   searchSelectedIndex (search_effect ascii_trim ascii_toLowerCase ex_forest ex_panel) = 0 \<and>
   searchOpen (ex_panel\<lparr>searchQuery := ''  ''\<rparr>) \<and>
   ascii_trim (searchQuery (ex_panel\<lparr>searchQuery := ''  ''\<rparr>)) = [] \<and>
   searchResults (search_effect ascii_trim ascii_toLowerCase ex_forest (ex_panel\<lparr>searchQuery := ''  ''\<rparr>)) = []"
proof -
  have h1: "searchOpen ex_panel" by (simp add: ex_panel_def)
  have h2: "ascii_trim (searchQuery ex_panel) \<noteq> []"
    by (simp add: ex_panel_def ascii_trim_def ascii_isWhiteSpace_def)
  have h3: "ascii_toLowerCase (searchQuery ex_panel) = ''bread''"
    by code_simp
  from search_complete[where sp = ex_panel and ns = ex_forest and trim = ascii_trim
      and toLowerCase = ascii_toLowerCase] h1 h2
  have "searchResults (search_effect ascii_trim ascii_toLowerCase ex_forest ex_panel) =
          filter (\<lambda>(p, n). sublist (ascii_toLowerCase (searchQuery ex_panel)) (ascii_toLowerCase (title n)) \<or>
                           sublist (ascii_toLowerCase (searchQuery ex_panel)) (ascii_toLowerCase (content n)))
            (gatherAllNotes ex_forest)" by blast
  moreover have "filter (\<lambda>(p, n). sublist (ascii_toLowerCase (searchQuery ex_panel)) (ascii_toLowerCase (title n)) \<or>
                           sublist (ascii_toLowerCase (searchQuery ex_panel)) (ascii_toLowerCase (content n)))
            (gatherAllNotes ex_forest) = [([0, 0], ex_sub)]"
    by code_simp
  ultimately have c1: "searchResults (search_effect ascii_trim ascii_toLowerCase ex_forest ex_panel) = [([0, 0], ex_sub)]"
    by simp
  have c2: "searchSelectedIndex (search_effect ascii_trim ascii_toLowerCase ex_forest ex_panel) = 0"
    using h1 h2 by (simp add: search_effect_def Let_def)
  have h4: "searchOpen (ex_panel\<lparr>searchQuery := ''  ''\<rparr>)" by (simp add: ex_panel_def)
  have h5: "ascii_trim (searchQuery (ex_panel\<lparr>searchQuery := ''  ''\<rparr>)) = []"
    by (simp add: ascii_trim_def ascii_isWhiteSpace_def)
  from search_complete[where sp = "ex_panel\<lparr>searchQuery := ''  ''\<rparr>" and ns = ex_forest
      and trim = ascii_trim and toLowerCase = ascii_toLowerCase] h4 h5
  have c3: "searchResults (search_effect ascii_trim ascii_toLowerCase ex_forest (ex_panel\<lparr>searchQuery := ''  ''\<rparr>)) = []"
    by blast
  from h1 h2 h3 c1 c2 h4 h5 c3 show ?thesis by blast
qed

subsection \<open>Opening and closing tabs\<close>

lemma pathsEqual_loop_iff: "length a = length b \<Longrightarrow> pathsEqual_loop a b \<longleftrightarrow> a = b"
  by (induction a b rule: pathsEqual_loop.induct) auto

lemma pathsEqual_iff: "pathsEqual a b \<longleftrightarrow> a = b"
  using pathsEqual_loop_iff[of a b] by (auto simp: pathsEqual_def)

lemma findIndex_from_eq:
  "findIndex_from (\<lambda>t. pathsEqual t p) xs i =
     (if p \<in> set xs then i + int (length (takeWhile (\<lambda>t. t \<noteq> p) xs)) else -1)"
  by (induction xs arbitrary: i) (auto simp: pathsEqual_iff)

lemma findIndex_eq:
  "findIndex (\<lambda>t. pathsEqual t p) xs =
     (if p \<in> set xs then int (length (takeWhile (\<lambda>t. t \<noteq> p) xs)) else -1)"
  by (simp add: findIndex_def findIndex_from_eq)

lemma openNoteTab_present:
  "p \<in> set (openTabs st) \<Longrightarrow>
   openNoteTab st p =
     st\<lparr>selectedPath := p, activeTabIndex := int (length (takeWhile (\<lambda>t. t \<noteq> p) (openTabs st)))\<rparr>"
  by (simp add: openNoteTab_def findIndex_eq Let_def)

lemma openNoteTab_absent:
  "p \<notin> set (openTabs st) \<Longrightarrow>
   openNoteTab st p =
     st\<lparr>selectedPath := p, openTabs := openTabs st @ [p],
        activeTabIndex := int (length (openTabs st))\<rparr>"
  by (simp add: openNoteTab_def findIndex_eq Let_def)

lemma takeWhile_snoc_absent: "p \<notin> set xs \<Longrightarrow> takeWhile (\<lambda>t. t \<noteq> p) (xs @ [p]) = xs"
  by (induction xs) auto

lemma takeWhile_first:
  "p \<in> set xs \<Longrightarrow>
   length (takeWhile (\<lambda>t. t \<noteq> p) xs) < length xs \<and>
   xs ! length (takeWhile (\<lambda>t. t \<noteq> p) xs) = p \<and>
   (\<forall>j < length (takeWhile (\<lambda>t. t \<noteq> p) xs). xs ! j \<noteq> p)"
proof (induction xs)
  case Nil
  then show ?case by simp
next
  case (Cons x xs)
  show ?case
  proof (cases "x = p")
    case True
    then show ?thesis by simp
  next
    case False
    with Cons have ih: "length (takeWhile (\<lambda>t. t \<noteq> p) xs) < length xs"
      "xs ! length (takeWhile (\<lambda>t. t \<noteq> p) xs) = p"
      "\<forall>j < length (takeWhile (\<lambda>t. t \<noteq> p) xs). xs ! j \<noteq> p" by auto
    have "(x # xs) ! j \<noteq> p" if "j < Suc (length (takeWhile (\<lambda>t. t \<noteq> p) xs))" for j
      using that False ih(3) by (cases j) auto
    with False ih show ?thesis by simp
  qed
qed

lemma openNoteTab_twice: "openNoteTab (openNoteTab st p) p = openNoteTab st p"
proof (cases "p \<in> set (openTabs st)")
  case True
  then have "p \<in> set (openTabs (openNoteTab st p))" by (simp add: openNoteTab_present)
  then show ?thesis using True by (simp add: openNoteTab_present)
next
  case False
  then have "p \<in> set (openTabs (openNoteTab st p))" by (simp add: openNoteTab_absent)
  then show ?thesis using False
    by (simp add: openNoteTab_present) (simp add: openNoteTab_absent takeWhile_snoc_absent)
qed

text \<open>
  Claim C7: \<open>pathsEqual\<close> is equality of the two sequences, element by element.
  \<open>openNoteTab\<close> on a path that has a tab leaves the tabs as they are and makes the first
  tab with that path active; on a path that has none it appends a tab for it and makes
  this last tab active. A second call with the same path changes nothing: the active
  index is the same and no tab is added, so the path has as many tabs as after the first
  call.
\<close>

theorem openNoteTab_idempotent:
  "openNoteTab (openNoteTab st p) p = openNoteTab st p \<and>
   activeTabIndex (openNoteTab (openNoteTab st p) p) = activeTabIndex (openNoteTab st p) \<and>
   openTabs (openNoteTab (openNoteTab st p) p) = openTabs (openNoteTab st p) \<and>
   pathsEqual a b = (a = b) \<and>
   (p \<in> set (openTabs st) \<longrightarrow>
      openTabs (openNoteTab st p) = openTabs st \<and>
      0 \<le> activeTabIndex (openNoteTab st p) \<and>
      nat (activeTabIndex (openNoteTab st p)) < length (openTabs st) \<and>
      openTabs st ! nat (activeTabIndex (openNoteTab st p)) = p \<and>
      (\<forall>j < nat (activeTabIndex (openNoteTab st p)). openTabs st ! j \<noteq> p)) \<and>
   (p \<notin> set (openTabs st) \<longrightarrow>
      openTabs (openNoteTab st p) = openTabs st @ [p] \<and>
      activeTabIndex (openNoteTab st p) = int (length (openTabs st))) \<and>
   selectedPath (openNoteTab st p) = p \<and>
   count_list (openTabs (openNoteTab st p)) p = max 1 (count_list (openTabs st) p)"
proof (intro conjI impI)
  show "openNoteTab (openNoteTab st p) p = openNoteTab st p" by (rule openNoteTab_twice)
  then show "activeTabIndex (openNoteTab (openNoteTab st p) p) = activeTabIndex (openNoteTab st p)"
    "openTabs (openNoteTab (openNoteTab st p) p) = openTabs (openNoteTab st p)" by simp_all
  show "pathsEqual a b = (a = b)" by (rule pathsEqual_iff)
  show "selectedPath (openNoteTab st p) = p"
    by (cases "p \<in> set (openTabs st)") (simp_all add: openNoteTab_present openNoteTab_absent)
  show "count_list (openTabs (openNoteTab st p)) p = max 1 (count_list (openTabs st) p)"
  proof (cases "p \<in> set (openTabs st)")
    case True
    then have "count_list (openTabs st) p \<noteq> 0" by (simp add: count_list_0_iff)
    then have "count_list (openTabs st) p > 0" by simp
    with True show ?thesis by (simp add: openNoteTab_present)
  next
    case False
    then have "count_list (openTabs st) p = 0" by (simp add: count_list_0_iff)
    with False show ?thesis by (simp add: openNoteTab_absent)
  qed
next
  assume m: "p \<in> set (openTabs st)"
  let ?k = "length (takeWhile (\<lambda>t. t \<noteq> p) (openTabs st))"
  have a: "activeTabIndex (openNoteTab st p) = int ?k" using m by (simp add: openNoteTab_present)
  show "openTabs (openNoteTab st p) = openTabs st" using m by (simp add: openNoteTab_present)
  show "0 \<le> activeTabIndex (openNoteTab st p)" using a by simp
  from takeWhile_first[OF m] a
  show "nat (activeTabIndex (openNoteTab st p)) < length (openTabs st)"
    "openTabs st ! nat (activeTabIndex (openNoteTab st p)) = p"
    "\<forall>j < nat (activeTabIndex (openNoteTab st p)). openTabs st ! j \<noteq> p"
    by simp_all
next
  assume m: "p \<notin> set (openTabs st)"
  then show "openTabs (openNoteTab st p) = openTabs st @ [p]"
    "activeTabIndex (openNoteTab st p) = int (length (openTabs st))"
    by (simp_all add: openNoteTab_absent)
qed


theorem openNoteTab_idempotent_witness:
  "[0, 0] \<in> set (openTabs ex_tabs) \<and>
   openNoteTab ex_tabs [0, 0] = ex_tabs\<lparr>selectedPath := [0, 0], activeTabIndex := 2\<rparr> \<and>
   openNoteTab (openNoteTab ex_tabs [0, 0]) [0, 0] = openNoteTab ex_tabs [0, 0] \<and>
   openTabs ex_tabs ! nat (activeTabIndex (openNoteTab ex_tabs [0, 0])) = [0, 0] \<and>
   [2] \<notin> set (openTabs ex_tabs) \<and>
   openTabs (openNoteTab ex_tabs [2]) = [[0], [1], [0, 0], [2]] \<and>
   activeTabIndex (openNoteTab ex_tabs [2]) = 3 \<and>
   openTabs (openNoteTab (openNoteTab ex_tabs [2]) [2]) = [[0], [1], [0, 0], [2]] \<and>
   activeTabIndex (openNoteTab (openNoteTab ex_tabs [2]) [2]) = 3"
proof -
  have h1: "[0, 0] \<in> set (openTabs ex_tabs)" by (simp add: ex_tabs_def)
  have h2: "[2] \<notin> set (openTabs ex_tabs)" by (simp add: ex_tabs_def)
  have e1: "openNoteTab ex_tabs [0, 0] = ex_tabs\<lparr>selectedPath := [0, 0], activeTabIndex := 2\<rparr>"
    by (simp add: openNoteTab_def findIndex_def pathsEqual_def ex_tabs_def)
  note t1 = openNoteTab_idempotent[of ex_tabs "[0, 0]"]
  note t2 = openNoteTab_idempotent[of ex_tabs "[2]"]
  from t1 have c1: "openNoteTab (openNoteTab ex_tabs [0, 0]) [0, 0] = openNoteTab ex_tabs [0, 0]"
    by blast
  from t1 h1 have c0: "openTabs ex_tabs ! nat (activeTabIndex (openNoteTab ex_tabs [0, 0])) = [0, 0]"
    by blast
  from t2 h2 have c2: "openTabs (openNoteTab ex_tabs [2]) = openTabs ex_tabs @ [[2]]"
    and c3: "activeTabIndex (openNoteTab ex_tabs [2]) = int (length (openTabs ex_tabs))"
    by blast+
  from t2 have c4: "openTabs (openNoteTab (openNoteTab ex_tabs [2]) [2]) = openTabs (openNoteTab ex_tabs [2])"
    and c5: "activeTabIndex (openNoteTab (openNoteTab ex_tabs [2]) [2]) =
       activeTabIndex (openNoteTab ex_tabs [2])" by blast+
  from c2 have c2': "openTabs (openNoteTab ex_tabs [2]) = [[0], [1], [0, 0], [2]]"
    by (simp add: ex_tabs_def)
  from c3 have c3': "activeTabIndex (openNoteTab ex_tabs [2]) = 3" by (simp add: ex_tabs_def)
  from h1 h2 e1 c0 c1 c2' c3' c4 c5 show ?thesis by simp
qed

lemma splice1_in_range:
  "0 \<le> index \<Longrightarrow> index < int (length xs) \<Longrightarrow>
   splice1 xs index = take (nat index) xs @ drop (Suc (nat index)) xs"
  by (simp add: splice1_def Let_def min_def)

lemma openTabs_handleTabClose:
  "openTabs (handleTabClose st index) = splice1 (openTabs st) index"
  by (simp add: handleTabClose_def Let_def)

text \<open>
  Claim C4: closing the tab at a position inside the tab bar removes that tab. When it was
  the active tab: with no tab left the active index becomes \<open>-1\<close> and the selected path
  is cleared; otherwise the tab now at the position before becomes active, or the tab now
  at position \<open>0\<close> when the first tab was closed. When it was not the active tab and
  stood before it, the active index goes down by one; when it stood after it, the active
  index stays. From tabs \<open>[A, B, C]\<close> with \<open>B\<close> active, closing position \<open>1\<close> gives
  \<open>[A, C]\<close> with position \<open>0\<close> active, and from \<open>[A]\<close> closing position \<open>0\<close> gives no
  tabs, active index \<open>-1\<close> and an empty selected path.
\<close>

theorem handleTabClose_reselection:
  "(0 \<le> index \<and> index < int (length (openTabs st)) \<longrightarrow>
      openTabs (handleTabClose st index) =
        take (nat index) (openTabs st) @ drop (Suc (nat index)) (openTabs st) \<and>
      (index = activeTabIndex st \<and> length (openTabs st) = 1 \<longrightarrow>
         openTabs (handleTabClose st index) = [] \<and>
         activeTabIndex (handleTabClose st index) = -1 \<and>
         selectedPath (handleTabClose st index) = []) \<and>
      (index = activeTabIndex st \<and> length (openTabs st) > 1 \<and> index > 0 \<longrightarrow>
         activeTabIndex (handleTabClose st index) = index - 1 \<and>
         openTabs (handleTabClose st index) ! nat (index - 1) = openTabs st ! nat (index - 1)) \<and>
      (index = activeTabIndex st \<and> length (openTabs st) > 1 \<and> index = 0 \<longrightarrow>
         activeTabIndex (handleTabClose st index) = 0 \<and>
         openTabs (handleTabClose st index) ! 0 = openTabs st ! 1) \<and>
      (index < activeTabIndex st \<longrightarrow>
         activeTabIndex (handleTabClose st index) = activeTabIndex st - 1) \<and>
      (index > activeTabIndex st \<longrightarrow>
         activeTabIndex (handleTabClose st index) = activeTabIndex st))
   \<and> handleTabClose \<lparr>notes = ns, selectedPath = B, openTabs = [A, B, C], activeTabIndex = 1\<rparr> 1 =
         \<lparr>notes = ns, selectedPath = B, openTabs = [A, C], activeTabIndex = 0\<rparr>
   \<and> handleTabClose \<lparr>notes = ns, selectedPath = A, openTabs = [A], activeTabIndex = 0\<rparr> 0 =
         \<lparr>notes = ns, selectedPath = [], openTabs = [], activeTabIndex = -1\<rparr>"
proof (intro conjI impI)
  assume r: "0 \<le> index \<and> index < int (length (openTabs st))"
  then have s: "splice1 (openTabs st) index =
      take (nat index) (openTabs st) @ drop (Suc (nat index)) (openTabs st)"
    by (simp add: splice1_in_range)
  show o: "openTabs (handleTabClose st index) =
        take (nat index) (openTabs st) @ drop (Suc (nat index)) (openTabs st)"
    by (simp only: openTabs_handleTabClose s)
  {
    assume a: "index = activeTabIndex st \<and> length (openTabs st) = 1"
    with r have i: "index = 0" by simp
    show "openTabs (handleTabClose st index) = []" using a i o by simp
    show "activeTabIndex (handleTabClose st index) = -1" using a i
      by (simp add: handleTabClose_def Let_def)
    show "selectedPath (handleTabClose st index) = []" using a i
      by (simp add: handleTabClose_def Let_def)
  }
  {
    assume a: "index = activeTabIndex st \<and> length (openTabs st) > 1 \<and> index > 0"
    with r show "activeTabIndex (handleTabClose st index) = index - 1"
      by (simp add: handleTabClose_def Let_def)
    from a r have "nat (index - 1) < nat index" "nat index \<le> length (openTabs st)" by linarith+
    then show "openTabs (handleTabClose st index) ! nat (index - 1) = openTabs st ! nat (index - 1)"
      unfolding o by (simp add: nth_append)
  }
  {
    assume a: "index = activeTabIndex st \<and> length (openTabs st) > 1 \<and> index = 0"
    then show "activeTabIndex (handleTabClose st index) = 0"
      by (simp add: handleTabClose_def Let_def)
    from a show "openTabs (handleTabClose st index) ! 0 = openTabs st ! 1"
      unfolding o by simp
  }
  {
    assume "index < activeTabIndex st"
    then show "activeTabIndex (handleTabClose st index) = activeTabIndex st - 1"
      by (simp add: handleTabClose_def Let_def)
  }
  {
    assume "index > activeTabIndex st"
    then show "activeTabIndex (handleTabClose st index) = activeTabIndex st"
      by (simp add: handleTabClose_def Let_def)
  }
next
  show "handleTabClose \<lparr>notes = ns, selectedPath = B, openTabs = [A, B, C], activeTabIndex = 1\<rparr> 1 =
         \<lparr>notes = ns, selectedPath = B, openTabs = [A, C], activeTabIndex = 0\<rparr>"
    by (simp add: handleTabClose_def splice1_def Let_def)
next
  show "handleTabClose \<lparr>notes = ns, selectedPath = A, openTabs = [A], activeTabIndex = 0\<rparr> 0 =
         \<lparr>notes = ns, selectedPath = [], openTabs = [], activeTabIndex = -1\<rparr>"
    by (simp add: handleTabClose_def splice1_def Let_def)
qed

theorem handleTabClose_reselection_witness:
  "(0::int) \<le> 2 \<and> 2 < int (length (openTabs (ex_tabs\<lparr>activeTabIndex := 2\<rparr>))) \<and>
   openTabs (handleTabClose (ex_tabs\<lparr>activeTabIndex := 2\<rparr>) 2) = [[0], [1]] \<and>
   activeTabIndex (handleTabClose (ex_tabs\<lparr>activeTabIndex := 2\<rparr>) 2) = 1 \<and>
   activeTabIndex (handleTabClose (ex_tabs\<lparr>activeTabIndex := 0\<rparr>) 0) = 0 \<and>
   openTabs (handleTabClose (ex_tabs\<lparr>activeTabIndex := 0\<rparr>) 0) = [[1], [0, 0]] \<and>
   activeTabIndex (handleTabClose ex_tabs 0) = 0 \<and>
   activeTabIndex (handleTabClose ex_tabs 2) = 1 \<and>
   activeTabIndex (handleTabClose (ex_tabs\<lparr>openTabs := [[1]], activeTabIndex := 0\<rparr>) 0) = -1 \<and>
   selectedPath (handleTabClose (ex_tabs\<lparr>openTabs := [[1]], activeTabIndex := 0\<rparr>) 0) = [] \<and>
   openTabs (handleTabClose (ex_tabs\<lparr>openTabs := [[1]], activeTabIndex := 0\<rparr>) 0) = []"
proof -
  have l: "length (openTabs ex_tabs) = 3" by (simp add: ex_tabs_def)
  have a: "activeTabIndex ex_tabs = 1" by (simp add: ex_tabs_def)
  have o: "openTabs ex_tabs = [[0], [1], [0, 0]]" by (simp add: ex_tabs_def)
  from handleTabClose_reselection[of 2 "ex_tabs\<lparr>activeTabIndex := 2\<rparr>"] l o
  have c1: "openTabs (handleTabClose (ex_tabs\<lparr>activeTabIndex := 2\<rparr>) 2) = [[0], [1]]"
    and c2: "activeTabIndex (handleTabClose (ex_tabs\<lparr>activeTabIndex := 2\<rparr>) 2) = 1"
    by simp_all
  from handleTabClose_reselection[of 0 "ex_tabs\<lparr>activeTabIndex := 0\<rparr>"] l o
  have c3: "activeTabIndex (handleTabClose (ex_tabs\<lparr>activeTabIndex := 0\<rparr>) 0) = 0"
    and c4: "openTabs (handleTabClose (ex_tabs\<lparr>activeTabIndex := 0\<rparr>) 0) = [[1], [0, 0]]"
    by simp_all
  from handleTabClose_reselection[of 0 ex_tabs] l a
  have c5: "activeTabIndex (handleTabClose ex_tabs 0) = 0" by simp
  from handleTabClose_reselection[of 2 ex_tabs] l a
  have c6: "activeTabIndex (handleTabClose ex_tabs 2) = 1" by simp
  from handleTabClose_reselection[of 0 "ex_tabs\<lparr>openTabs := [[1]], activeTabIndex := 0\<rparr>"]
  have c7: "activeTabIndex (handleTabClose (ex_tabs\<lparr>openTabs := [[1]], activeTabIndex := 0\<rparr>) 0) = -1"
    and c8: "selectedPath (handleTabClose (ex_tabs\<lparr>openTabs := [[1]], activeTabIndex := 0\<rparr>) 0) = []"
    and c9: "openTabs (handleTabClose (ex_tabs\<lparr>openTabs := [[1]], activeTabIndex := 0\<rparr>) 0) = []"
    by simp_all
  from l c1 c2 c3 c4 c5 c6 c7 c8 c9 show ?thesis by simp
qed

subsection \<open>Collapsing\<close>

lemma strip_collapsed_sel:
  "strip_collapsed n = Note (title n) (content n) (map_option (map strip_collapsed) (subNotes n)) None"
  by (cases n) simp

lemma strip_collapsed_fields [simp]:
  "title (strip_collapsed n) = title n" "content (strip_collapsed n) = content n"
  by (cases n; simp)+

lemma map_update_same: "i < length xs \<Longrightarrow> f x = f (xs ! i) \<Longrightarrow> map f (xs[i := x]) = map f xs"
  by (metis list_update_id map_update nth_map)

lemma strip_replace:
  "getNoteByPath_loop ns p = Some old \<Longrightarrow> strip_collapsed u = strip_collapsed old \<Longrightarrow>
   map strip_collapsed (replace_at ns p u) = map strip_collapsed ns"
proof (induction ns p u arbitrary: old rule: replace_at.induct)
  case (1 ns u)
  then show ?case by simp
next
  case (2 ns i u)
  from loop_resolved_single[OF "2.prems"(1)] "2.prems"(2) show ?case
    by (simp add: map_update_same)
next
  case (3 ns i v va u)
  from loop_resolved_cons[OF "3.prems"(1)] obtain subs where
    i: "0 \<le> i" "nat i < length ns" and subs: "subNotes (ns ! nat i) = Some subs"
    and res: "getNoteByPath_loop subs (v # va) = Some old" by blast
  have ch: "children (ns ! nat i) = subs" using subs by (simp add: children_def)
  from "3.IH"[of old] res ch "3.prems"(2)
  have ih: "map strip_collapsed (replace_at subs (v # va) u) = map strip_collapsed subs" by simp
  have "strip_collapsed (Note (title (ns ! nat i)) (content (ns ! nat i))
                   (Some (replace_at subs (v # va) u)) (isCollapsed (ns ! nat i))) =
        strip_collapsed (ns ! nat i)"
    using ih subs by (simp add: strip_collapsed_sel[of "ns ! nat i"])
  then show ?case using i ch by (simp add: map_update_same)
qed

lemma preorder_strip:
  "preorder cur i (map strip_collapsed ns) = map (apsnd strip_collapsed) (preorder cur i ns)"
  by (induction cur i ns rule: preorder.induct) (auto split: option.splits)

lemma search_matches_strip:
  "search_matches toLowerCase lowerQ (apsnd strip_collapsed e) = search_matches toLowerCase lowerQ e"
  by (cases e) (simp add: search_matches_def)

lemma filter_matches_strip:
  "map (apsnd strip_collapsed) (filter (search_matches toLowerCase lowerQ) xs) =
   filter (search_matches toLowerCase lowerQ) (map (apsnd strip_collapsed) xs)"
  by (induction xs) (simp_all add: search_matches_strip)

lemma search_strip:
  assumes "map strip_collapsed ns' = map strip_collapsed ns"
  shows "map (apsnd strip_collapsed) (searchResults (search_effect trim toLowerCase ns' sp)) =
         map (apsnd strip_collapsed) (searchResults (search_effect trim toLowerCase ns sp))"
proof -
  have "map (apsnd strip_collapsed) (gatherAllNotes ns') = map (apsnd strip_collapsed) (gatherAllNotes ns)"
    using assms preorder_strip[of "[]" 0 ns'] preorder_strip[of "[]" 0 ns]
    by (simp add: gather_preorder)
  then show ?thesis
    by (simp add: search_effect_def Let_def filter_matches_strip)
qed

lemma replace_frame:
  assumes p: "getNoteByPath_loop ns p = Some old"
    and ch: "\<And>r n. getNoteByPath_loop (children old) r = Some n \<Longrightarrow>
               getNoteByPath_loop (children u) r = Some n"
    and q: "getNoteByPath_loop ns q = Some n" and ne: "q \<noteq> p"
  shows "\<exists>n'. getNoteByPath_loop (replace_at ns p u) q = Some n' \<and> title n' = title n
              \<and> content n' = content n \<and> isCollapsed n' = isCollapsed n"
proof (cases q p rule: path_cases)
  case same
  with ne show ?thesis by simp
next
  case (below r)
  with q loop_replace_below(1)[OF p below(2), of u] loop_replace_below(2)[OF p below(2)] ch[of r n]
  show ?thesis by simp
next
  case above
  from q have "q \<noteq> []" by (rule loop_Some_nonempty)
  from loop_replace_ancestor[OF p above this, of u] q show ?thesis by auto
next
  case other
  with q loop_replace_other[OF p other, of u] show ?thesis by simp
qed

lemma replace_no_new:
  assumes p: "getNoteByPath_loop ns p = Some old"
    and ch: "children u = children old"
    and q: "getNoteByPath_loop (replace_at ns p u) q = Some n'"
  shows "\<exists>n. getNoteByPath_loop ns q = Some n"
  using replace_resolves[OF p q]
proof (elim disjE conjE exE)
  assume "q = p"
  with p show ?thesis by simp
next
  fix r assume r: "r \<noteq> []" "q = p @ r" "getNoteByPath_loop (children u) r = Some n'"
  with loop_replace_below(2)[OF p r(1)] ch show ?thesis by simp
qed blast+


text \<open>
  Claim C8: on a path that resolves, \<open>handleToggleCollapse\<close> calls the setter with a
  forest in which that path resolves to the same note, title, content and children as
  before, with the collapsed flag negated (an absent flag becomes true). Nothing else
  changes: a path that is no prefix of the toggled path resolves exactly as before, every
  note at another path keeps its title, content and collapsed flag, no path starts or
  stops resolving, and the two forests are equal once the collapsed flags are erased. The
  search, whatever \<open>trim\<close> and \<open>toLowerCase\<close> return, gives the same paths in the same
  order before and after, with the same notes up to collapsed flags.
\<close>

theorem toggle_collapse_frame:
  "getNoteByPath ns p = Some n \<longrightarrow>
     (let ns' = apply_effect (handleToggleCollapse ns p) ns in
        handleToggleCollapse ns p = SetNotes ns' \<and>
        getNoteByPath ns' p =
          Some (Note (title n) (content n) (subNotes n)
                  (Some (case isCollapsed n of None \<Rightarrow> True | Some b \<Rightarrow> \<not> b))) \<and>
        map strip_collapsed ns' = map strip_collapsed ns \<and>
        (\<forall>q m. q \<noteq> p \<and> getNoteByPath ns q = Some m \<longrightarrow>
           (\<exists>m'. getNoteByPath ns' q = Some m' \<and> title m' = title m \<and>
              content m' = content m \<and> isCollapsed m' = isCollapsed m)) \<and>
        (\<forall>q. \<not> prefix q p \<longrightarrow> getNoteByPath ns' q = getNoteByPath ns q) \<and>
        (\<forall>q. getNoteByPath ns q = None \<longrightarrow> getNoteByPath ns' q = None) \<and>
        map fst (searchResults (search_effect trim toLowerCase ns' sp)) =
          map fst (searchResults (search_effect trim toLowerCase ns sp)) \<and>
        map (apsnd strip_collapsed) (searchResults (search_effect trim toLowerCase ns' sp)) =
          map (apsnd strip_collapsed) (searchResults (search_effect trim toLowerCase ns sp)))"
proof
  assume r: "getNoteByPath ns p = Some n"
  let ?u = "Note (title n) (content n) (subNotes n)
              (Some (case isCollapsed n of None \<Rightarrow> True | Some b \<Rightarrow> \<not> b))"
  let ?ns' = "replace_at ns p ?u"
  from r have pne: "p \<noteq> []" and l: "getNoteByPath_loop ns p = Some n"
    using get_Some_nonempty by blast+
  have e: "handleToggleCollapse ns p = SetNotes ?ns'"
    by (rule handleToggleCollapse_resolved[OF r])
  have cu: "children ?u = children n" by (simp add: children_def)
  have 1: "getNoteByPath ?ns' p = Some ?u"
    using pne loop_replace_same[OF l, of ?u] by (simp add: getNoteByPath_def)
  have "strip_collapsed ?u = strip_collapsed n"
    by (simp add: strip_collapsed_sel[of n])
  from strip_replace[OF l this] have 2: "map strip_collapsed ?ns' = map strip_collapsed ns" .
  have 3: "\<exists>m'. getNoteByPath ?ns' q = Some m' \<and> title m' = title m \<and>
              content m' = content m \<and> isCollapsed m' = isCollapsed m"
    if "q \<noteq> p \<and> getNoteByPath ns q = Some m" for q m
  proof -
    from that have q: "q \<noteq> []" "getNoteByPath_loop ns q = Some m" "q \<noteq> p"
      using get_Some_nonempty by blast+
    from replace_frame[OF l _ q(2,3), of ?u] cu q(1) show ?thesis
      by (simp add: getNoteByPath_def)
  qed
  have 4: "getNoteByPath ?ns' q = None" if "getNoteByPath ns q = None" for q
  proof (cases "getNoteByPath ?ns' q")
    case None
    then show ?thesis .
  next
    case (Some m')
    then have "q \<noteq> []" "getNoteByPath_loop ?ns' q = Some m'" using get_Some_nonempty by blast+
    with replace_no_new[OF l cu, of q m'] that show ?thesis by (simp add: getNoteByPath_def)
  qed
  have 7: "getNoteByPath ?ns' q = getNoteByPath ns q" if np: "\<not> prefix q p" for q
  proof (cases q p rule: path_cases)
    case same
    with np show ?thesis by simp
  next
    case (below r)
    with loop_replace_below(1)[OF l below(2), of ?u] loop_replace_below(2)[OF l below(2)] cu pne
    show ?thesis by (simp add: getNoteByPath_def)
  next
    case above
    with np show ?thesis by (simp add: strict_prefix_def)
  next
    case other
    with loop_replace_other[OF l other, of ?u] show ?thesis by (simp add: getNoteByPath_def)
  qed
  have 6: "map (apsnd strip_collapsed) (searchResults (search_effect trim toLowerCase ?ns' sp)) =
          map (apsnd strip_collapsed) (searchResults (search_effect trim toLowerCase ns sp))"
    by (rule search_strip[OF 2])
  then have "map fst (map (apsnd strip_collapsed) (searchResults (search_effect trim toLowerCase ?ns' sp))) =
          map fst (map (apsnd strip_collapsed) (searchResults (search_effect trim toLowerCase ns sp)))" by simp
  then have 5: "map fst (searchResults (search_effect trim toLowerCase ?ns' sp)) =
          map fst (searchResults (search_effect trim toLowerCase ns sp))" by (simp add: comp_def)
  show "let ns' = apply_effect (handleToggleCollapse ns p) ns in
        handleToggleCollapse ns p = SetNotes ns' \<and>
        getNoteByPath ns' p = Some ?u \<and>
        map strip_collapsed ns' = map strip_collapsed ns \<and>
        (\<forall>q m. q \<noteq> p \<and> getNoteByPath ns q = Some m \<longrightarrow>
           (\<exists>m'. getNoteByPath ns' q = Some m' \<and> title m' = title m \<and>
              content m' = content m \<and> isCollapsed m' = isCollapsed m)) \<and>
        (\<forall>q. \<not> prefix q p \<longrightarrow> getNoteByPath ns' q = getNoteByPath ns q) \<and>
        (\<forall>q. getNoteByPath ns q = None \<longrightarrow> getNoteByPath ns' q = None) \<and>
        map fst (searchResults (search_effect trim toLowerCase ns' sp)) =
          map fst (searchResults (search_effect trim toLowerCase ns sp)) \<and>
        map (apsnd strip_collapsed) (searchResults (search_effect trim toLowerCase ns' sp)) =
          map (apsnd strip_collapsed) (searchResults (search_effect trim toLowerCase ns sp))"
    unfolding Let_def e apply_effect.simps using 1 2 3 4 5 6 7 by blast
qed

theorem toggle_collapse_frame_witness:
  "getNoteByPath ex_forest [0, 0] = Some ex_sub \<and>
   handleToggleCollapse ex_forest [0, 0] =
     SetNotes [Note ''Shopping'' ''milk eggs'' (Some [Note ''Sub'' ''bread'' (Some []) (Some True)])
                 (Some False), ex_plain] \<and>
   getNoteByPath (apply_effect (handleToggleCollapse ex_forest [0, 0]) ex_forest) [0, 0] =
     Some (Note ''Sub'' ''bread'' (Some []) (Some True)) \<and>
   getNoteByPath (apply_effect (handleToggleCollapse ex_forest [0, 0]) ex_forest) [5] = None \<and>
   getNoteByPath (apply_effect (handleToggleCollapse ex_forest [0, 0]) ex_forest) [1] = Some ex_plain \<and>
   map fst (searchResults (search_effect ascii_trim ascii_toLowerCase (apply_effect (handleToggleCollapse ex_forest [0, 0])
     ex_forest) ex_panel)) = [[0, 0]]"
proof -
  have h: "getNoteByPath ex_forest [0, 0] = Some ex_sub"
    by (simp add: getNoteByPath_def ex_forest_def)
  have h5: "getNoteByPath ex_forest [5] = None"
    by (simp add: getNoteByPath_def ex_forest_def)
  have s: "searchResults (search_effect ascii_trim ascii_toLowerCase ex_forest ex_panel) = [([0, 0], ex_sub)]"
    by code_simp
  have v: "handleToggleCollapse ex_forest [0, 0] =
     SetNotes [Note ''Shopping'' ''milk eggs'' (Some [Note ''Sub'' ''bread'' (Some []) (Some True)])
                 (Some False), ex_plain]"
    by (simp add: handleToggleCollapse_def getNoteByPath_def setNoteByPath_def ex_forest_def
        ex_sub_def array_assign_def Let_def)
  note t = toggle_collapse_frame[where ns = ex_forest and p = "[0, 0]" and n = ex_sub and sp = ex_panel
      and trim = ascii_trim and toLowerCase = ascii_toLowerCase, unfolded Let_def]
  from t h have c1: "getNoteByPath (apply_effect (handleToggleCollapse ex_forest [0, 0]) ex_forest) [0, 0] =
     Some (Note (title ex_sub) (content ex_sub) (subNotes ex_sub)
                  (Some (case isCollapsed ex_sub of None \<Rightarrow> True | Some b \<Rightarrow> \<not> b)))"
    by blast
  from t h h5 have c2: "getNoteByPath (apply_effect (handleToggleCollapse ex_forest [0, 0]) ex_forest) [5] = None"
    by blast
  have h1: "getNoteByPath ex_forest [1] = Some ex_plain"
    by (simp add: getNoteByPath_def ex_forest_def)
  have "\<not> prefix [1] [0, 0 :: int]" by simp
  with t h have "getNoteByPath (apply_effect (handleToggleCollapse ex_forest [0, 0]) ex_forest) [1] =
      getNoteByPath ex_forest [1]" by blast
  with h1 have c4: "getNoteByPath (apply_effect (handleToggleCollapse ex_forest [0, 0]) ex_forest) [1] =
      Some ex_plain" by simp
  from t h have c3: "map fst (searchResults (search_effect ascii_trim ascii_toLowerCase (apply_effect (handleToggleCollapse ex_forest [0, 0])
     ex_forest) ex_panel)) = map fst (searchResults (search_effect ascii_trim ascii_toLowerCase ex_forest ex_panel))"
    by blast
  from c1 have c1': "getNoteByPath (apply_effect (handleToggleCollapse ex_forest [0, 0]) ex_forest) [0, 0] =
     Some (Note ''Sub'' ''bread'' (Some []) (Some True))"
    by (simp add: ex_sub_def)
  from c3 s have c3': "map fst (searchResults (search_effect ascii_trim ascii_toLowerCase (apply_effect (handleToggleCollapse ex_forest [0, 0])
     ex_forest) ex_panel)) = [[0, 0]]" by simp
  from h v c1' c2 c3' c4 show ?thesis by blast
qed

end
